theory Spec2Isabelle
  imports Complex_Main "HOL-Library.Word"
begin

section \<open>JavaScript strings\<close>

text \<open>
  A JavaScript string is a sequence of UTF-16 code units; \<open>length\<close>, the regular
  expressions of \<open>index.js\<close> (none has the \<open>u\<close> flag) and \<open>split\<close> all work on code
  units. ASCII literals of the source are written through \<open>js\<close>.
\<close>

type_synonym unit16 = "16 word"
type_synonym jsstring = "unit16 list"

definition js :: "string \<Rightarrow> jsstring" where
  "js s = map of_char s"

text \<open>The class \<open>\s\<close> of an ECMAScript regular expression: WhiteSpace and LineTerminator.\<close>

definition isWhiteSpace :: "unit16 \<Rightarrow> bool" where
  "isWhiteSpace c \<longleftrightarrow>
     c \<in> set [0x09, 0x0A, 0x0B, 0x0C, 0x0D, 0x20, 0xA0, 0x1680, 0x2028, 0x2029,
               0x202F, 0x205F, 0x3000, 0xFEFF]
     \<or> (0x2000 \<le> c \<and> c \<le> 0x200A)"

text \<open>The class \<open>\d\<close>: the ASCII digits.\<close>

definition isDigit :: "unit16 \<Rightarrow> bool" where
  "isDigit c \<longleftrightarrow> 0x30 \<le> c \<and> c \<le> 0x39"

text \<open>
  The class of the first \<open>replace\<close>: the curly quotes \<open>U+2018\<close>, \<open>U+2019\<close>, \<open>U+201C\<close>
  and \<open>U+201D\<close>.
\<close>

definition isCurlyQuote :: "unit16 \<Rightarrow> bool" where
  "isCurlyQuote c \<longleftrightarrow> c \<in> set [0x2018, 0x2019, 0x201C, 0x201D]"

text \<open>
  The complement of the class \<open>[^a-z0-9\s+#\-_]\<close> of the second \<open>replace\<close>: the code
  units that normalisation keeps.
\<close>

definition isKept :: "unit16 \<Rightarrow> bool" where
  "isKept c \<longleftrightarrow>
     (0x61 \<le> c \<and> c \<le> 0x7A) \<or> isDigit c \<or> isWhiteSpace c
     \<or> c = 0x2B \<or> c = 0x23 \<or> c = 0x2D \<or> c = 0x5F"

subsection \<open>\<open>String.prototype.toLowerCase\<close>\<close>

text \<open>
  \<open>toLowerCase\<close> belongs to the JavaScript runtime, not to the repository. What the
  language fixes for the code units that \<open>index.js\<close> names is written out: \<open>A\<close>..\<open>Z\<close>
  go to \<open>a\<close>..\<open>z\<close>, and every other ASCII code unit, every white-space code unit and the
  four curly quotes are left as they are (none of them is a cased letter). The Unicode
  case table for all remaining code units is a parameter: a \<open>casing\<close> gives the code
  units that replace one code unit, and may look at everything before and after it (a
  surrogate pair, the final-sigma rule, \<open>U+0130\<close> becoming two code units).
\<close>

type_synonym casing = "jsstring \<Rightarrow> unit16 \<Rightarrow> jsstring \<Rightarrow> jsstring"

definition lowerUnit :: "casing \<Rightarrow> jsstring \<Rightarrow> unit16 \<Rightarrow> jsstring \<Rightarrow> jsstring" where
  "lowerUnit uc pre c post =
     (if 0x41 \<le> c \<and> c \<le> 0x5A then [c + 0x20]
      else if c < 0x80 \<or> isWhiteSpace c \<or> isCurlyQuote c then [c]
      else uc pre c post)"

fun lowerFrom :: "casing \<Rightarrow> jsstring \<Rightarrow> jsstring \<Rightarrow> jsstring" where
  "lowerFrom uc pre [] = []"
| "lowerFrom uc pre (c # post) =
     lowerUnit uc pre c post @ lowerFrom uc (pre @ [c]) post"

definition toLowerCase :: "casing \<Rightarrow> jsstring \<Rightarrow> jsstring" where
  "toLowerCase uc s = lowerFrom uc [] s"

text \<open>A casing that changes nothing outside ASCII, for running the model on ASCII text.\<close>

definition asciiCasing :: casing where
  "asciiCasing pre c post = [c]"

subsection \<open>\<open>split\<close>, \<open>join\<close>, \<open>Set\<close>\<close>

text \<open>\<open>s.split(",")\<close>: the pieces between the separators, empty pieces included.\<close>

fun splitOn :: "'a \<Rightarrow> 'a list \<Rightarrow> 'a list \<Rightarrow> 'a list list" where
  "splitOn sep cur [] = [cur]"
| "splitOn sep cur (c # cs) =
     (if c = sep then cur # splitOn sep [] cs else splitOn sep (cur @ [c]) cs)"

text \<open>\<open>xs.join(sep)\<close>.\<close>

fun join :: "'a list \<Rightarrow> 'a list list \<Rightarrow> 'a list" where
  "join sep [] = []"
| "join sep [x] = x"
| "join sep (x # y # ys) = x @ sep @ join sep (y # ys)"

text \<open>
  \<open>new Set(iterable)\<close>: the distinct elements in the order of their first insertion,
  which is the order \<open>forEach\<close> visits them in.
\<close>

definition setAdd :: "'a list \<Rightarrow> 'a \<Rightarrow> 'a list" where
  "setAdd s x = (if x \<in> set s then s else s @ [x])"

definition newSet :: "'a list \<Rightarrow> 'a list" where
  "newSet xs = foldl setAdd [] xs"

text \<open>
  \<open>s.split(/\s+/)\<close>: the pieces between the maximal runs of white space; a run at
  either end leaves an empty piece there, and the empty string gives one empty piece.
\<close>

function splitWhite :: "jsstring \<Rightarrow> jsstring \<Rightarrow> jsstring list" where
  "splitWhite cur [] = [cur]"
| "splitWhite cur (c # cs) =
     (if isWhiteSpace c then cur # splitWhite [] (dropWhile isWhiteSpace cs)
      else splitWhite (cur @ [c]) cs)"
  by pat_completeness auto
termination
  by (relation "measure (\<lambda>(cur, cs). length cs)")
     (auto simp: length_dropWhile_le less_Suc_eq_le)

section \<open>The stopword set\<close>

text \<open>
  The source builds \<open>STOPWORDS\<close> from nine string literals joined by \<open>+\<close>, with
  \<open>.split(",")\<close> written after the last one. A method call binds tighter than \<open>+\<close>, so
  \<open>split\<close> applies to the last literal alone; adding the resulting array to the string
  before it converts the array back with \<open>Array.prototype.toString\<close>, that is
  \<open>join(",")\<close>. \<open>new Set\<close> then receives one string and iterates its characters.
\<close>

definition stopwordHead :: string where
  "stopwordHead =
     ''a,about,above,after,again,against,all,am,an,and,any,are,as,at,be,'' @
     ''because,been,before,being,below,between,both,but,by,could,did,do,does,'' @
     ''doing,down,during,each,few,for,from,further,had,has,have,having,he,her,'' @
     ''here,hers,him,his,how,i,if,in,into,is,it,its,itself,just,me,more,most,'' @
     ''my,myself,no,nor,not,of,off,on,once,only,or,other,ought,our,ours,ourselves,'' @
     ''out,over,own,same,she,should,so,some,such,than,that,the,their,theirs,them,'' @
     ''themselves,then,there,these,they,this,those,through,to,too,under,until,up,'' @
     ''very,was,we,were,what,when,where,which,while,who,whom,why,with,would,you,''"

definition stopwordTail :: string where
  "stopwordTail = ''your,yours,yourself,yourselves''"

definition stopwordArgument :: jsstring where
  "stopwordArgument =
     js stopwordHead @ join (js '','') (splitOn (of_char CHR '','') [] (js stopwordTail))"

definition STOPWORDS :: "jsstring list" where
  "STOPWORDS = newSet (map (\<lambda>c. [c]) stopwordArgument)"

text \<open>
  The words the literals enumerate, which is what \<open>split(",")\<close> would give on the whole
  concatenation.
\<close>

definition enumeratedStopwords :: "jsstring list" where
  "enumeratedStopwords = splitOn (of_char CHR '','') [] (js (stopwordHead @ stopwordTail))"

section \<open>Normaliser and tokeniser\<close>

definition replaceQuotes :: "jsstring \<Rightarrow> jsstring" where
  "replaceQuotes s = map (\<lambda>c. if isCurlyQuote c then 0x27 else c) s"

definition replaceOther :: "jsstring \<Rightarrow> jsstring" where
  "replaceOther s = map (\<lambda>c. if isKept c then c else 0x20) s"

definition normalizeText :: "casing \<Rightarrow> jsstring \<Rightarrow> jsstring" where
  "normalizeText uc text =
     (if text = [] then [] else replaceOther (replaceQuotes (toLowerCase uc text)))"

text \<open>The test \<open>/^\d+$/\<close>.\<close>

definition isAllDigits :: "jsstring \<Rightarrow> bool" where
  "isAllDigits t \<longleftrightarrow> t \<noteq> [] \<and> list_all isDigit t"

fun tokenLoop :: "nat \<Rightarrow> jsstring list \<Rightarrow> jsstring list" where
  "tokenLoop minLen [] = []"
| "tokenLoop minLen (t # ts) =
     (if length t < minLen then tokenLoop minLen ts
      else if t \<in> set STOPWORDS then tokenLoop minLen ts
      else if isAllDigits t then tokenLoop minLen ts
      else t # tokenLoop minLen ts)"

definition tokenize :: "casing \<Rightarrow> jsstring \<Rightarrow> nat \<Rightarrow> jsstring list" where
  "tokenize uc text minLen =
     (let normalized = normalizeText uc text;
          parts = filter (\<lambda>p. p \<noteq> []) (splitWhite [] normalized)
      in tokenLoop minLen parts)"

section \<open>Objects as frequency maps\<close>

text \<open>
  \<open>Object.create(null)\<close> has no prototype, so every token is an ordinary own property.
  An object is the list of its properties in creation order. \<open>Object.keys\<close> and
  \<open>Object.entries\<close> do not follow creation order alone: the keys that are array
  indices (the canonical decimal form of an integer from 0 to \<open>2^32 - 2\<close>) come first, in
  ascending numeric order, and the other keys follow in creation order.
\<close>

type_synonym 'v jsobject = "(jsstring \<times> 'v) list"

definition objGet :: "'v jsobject \<Rightarrow> jsstring \<Rightarrow> 'v option" where
  "objGet ob k = map_of ob k"

fun objSet :: "'v jsobject \<Rightarrow> jsstring \<Rightarrow> 'v \<Rightarrow> 'v jsobject" where
  "objSet [] k v = [(k, v)]"
| "objSet (p # ps) k v = (if fst p = k then (k, v) # ps else p # objSet ps k v)"

definition decimalValue :: "jsstring \<Rightarrow> nat" where
  "decimalValue k = foldl (\<lambda>n c. 10 * n + unat (c - 0x30)) 0 k"

definition isArrayIndex :: "jsstring \<Rightarrow> bool" where
  "isArrayIndex k \<longleftrightarrow>
     isAllDigits k \<and> (k = [0x30] \<or> hd k \<noteq> 0x30) \<and> decimalValue k \<le> 4294967294"

definition objectEntries :: "'v jsobject \<Rightarrow> (jsstring \<times> 'v) list" where
  "objectEntries ob =
     sort_key (\<lambda>e. decimalValue (fst e)) (filter (\<lambda>e. isArrayIndex (fst e)) ob)
     @ filter (\<lambda>e. \<not> isArrayIndex (fst e)) ob"

definition objectKeys :: "'v jsobject \<Rightarrow> jsstring list" where
  "objectKeys ob = map fst (objectEntries ob)"

text \<open>\<open>freq[t] || 0\<close>: an absent property reads as \<open>undefined\<close>, which \<open>||\<close> replaces by 0.\<close>

definition countOf :: "nat jsobject \<Rightarrow> jsstring \<Rightarrow> nat" where
  "countOf freq t = (case objGet freq t of None \<Rightarrow> 0 | Some n \<Rightarrow> n)"

definition buildFrequency :: "jsstring list \<Rightarrow> nat jsobject" where
  "buildFrequency tokens = foldl (\<lambda>freq t. objSet freq t (countOf freq t + 1)) [] tokens"

section \<open>JavaScript numbers\<close>

text \<open>
  A JavaScript number is an IEEE 754 binary64 value: a finite double, one of the two
  infinities, or NaN. A finite double is kept as the real number it stands for. Negative
  zero is identified with zero: no operation of \<open>index.js\<close> receives a negative number.
\<close>

datatype number = Finite real | PlusInfinity | MinusInfinity | NaN

text \<open>
  Rounding to nearest, ties to even, the rounding of every binary64 operation. A real
  \<open>x\<close> with \<open>2^e \<le> |x| < 2^(e+1)\<close> is rounded to a multiple of \<open>2^(e-52)\<close> (53 significant
  bits), and to a multiple of \<open>2^-1074\<close> in the subnormal range; a result of magnitude
  \<open>2^1024\<close> or more overflows to an infinity.
\<close>

definition roundEven :: "real \<Rightarrow> int" where
  "roundEven y =
     (let n = \<lfloor>y\<rfloor>; f = y - of_int n
      in if f < 1 / 2 then n else if 1 / 2 < f then n + 1 else if even n then n else n + 1)"

definition binade :: "real \<Rightarrow> int" where
  "binade x = \<lfloor>log 2 \<bar>x\<bar>\<rfloor>"

definition ulpExponent :: "real \<Rightarrow> int" where
  "ulpExponent x = max (binade x - 52) (- 1074)"

definition roundToDouble :: "real \<Rightarrow> real" where
  "roundToDouble x =
     (if x = 0 then 0
      else of_int (roundEven (x / 2 powi ulpExponent x)) * 2 powi ulpExponent x)"

definition toNumber :: "real \<Rightarrow> number" where
  "toNumber x =
     (let r = roundToDouble x
      in if 2 ^ 1024 \<le> \<bar>r\<bar> then (if 0 < x then PlusInfinity else MinusInfinity)
         else Finite r)"

definition signedInfinity :: "bool \<Rightarrow> number" where
  "signedInfinity positive = (if positive then PlusInfinity else MinusInfinity)"

text \<open>
  The operators \<open>+\<close>, \<open>*\<close> and \<open>/\<close> and \<open>Math.sqrt\<close>: on finite operands the exact
  result, rounded; on the other operands what IEEE 754 prescribes. Dividing by zero gives
  NaN for \<open>0 / 0\<close> and an infinity otherwise.
\<close>

fun jsAdd :: "number \<Rightarrow> number \<Rightarrow> number" where
  "jsAdd (Finite x) (Finite y) = toNumber (x + y)"
| "jsAdd NaN b = NaN"
| "jsAdd a NaN = NaN"
| "jsAdd PlusInfinity MinusInfinity = NaN"
| "jsAdd MinusInfinity PlusInfinity = NaN"
| "jsAdd PlusInfinity b = PlusInfinity"
| "jsAdd a PlusInfinity = PlusInfinity"
| "jsAdd MinusInfinity b = MinusInfinity"
| "jsAdd a MinusInfinity = MinusInfinity"

fun jsMul :: "number \<Rightarrow> number \<Rightarrow> number" where
  "jsMul (Finite x) (Finite y) = toNumber (x * y)"
| "jsMul NaN b = NaN"
| "jsMul a NaN = NaN"
| "jsMul (Finite x) b =
     (if x = 0 then NaN else signedInfinity ((0 < x) = (b = PlusInfinity)))"
| "jsMul a (Finite y) =
     (if y = 0 then NaN else signedInfinity ((0 < y) = (a = PlusInfinity)))"
| "jsMul a b = signedInfinity (a = b)"

fun jsDiv :: "number \<Rightarrow> number \<Rightarrow> number" where
  "jsDiv (Finite x) (Finite y) =
     (if y \<noteq> 0 then toNumber (x / y)
      else if x = 0 then NaN
      else signedInfinity (0 < x))"
| "jsDiv NaN b = NaN"
| "jsDiv a NaN = NaN"
| "jsDiv (Finite x) b = Finite 0"
| "jsDiv a (Finite y) = signedInfinity ((0 \<le> y) = (a = PlusInfinity))"
| "jsDiv a b = NaN"

fun mathSqrt :: "number \<Rightarrow> number" where
  "mathSqrt (Finite x) = (if x < 0 then NaN else toNumber (sqrt x))"
| "mathSqrt PlusInfinity = PlusInfinity"
| "mathSqrt MinusInfinity = NaN"
| "mathSqrt NaN = NaN"

text \<open>
  \<open>Math.round\<close>: the nearest integer, a tie going towards plus infinity. The result is
  exact: it is an integer no larger in magnitude than a double can hold exactly, or the
  argument itself.
\<close>

fun mathRound :: "number \<Rightarrow> number" where
  "mathRound (Finite x) = Finite (of_int \<lfloor>x + 1 / 2\<rfloor>)"
| "mathRound a = a"

text \<open>
  A count or a length as a number. It is below \<open>2^53\<close> for every string and array that a
  JavaScript engine can hold, and is then exact.
\<close>

definition numberOfNat :: "nat \<Rightarrow> number" where
  "numberOfNat n = toNumber (real n)"

section \<open>Cosine similarity\<close>

fun cosineLoop ::
  "nat jsobject \<Rightarrow> nat jsobject \<Rightarrow> jsstring list \<Rightarrow> number \<times> number \<times> number
    \<Rightarrow> number \<times> number \<times> number"
where
  "cosineLoop freqA freqB [] acc = acc"
| "cosineLoop freqA freqB (k # ks) (dot, normA, normB) =
     (let a = numberOfNat (countOf freqA k); b = numberOfNat (countOf freqB k)
      in cosineLoop freqA freqB ks
           (jsAdd dot (jsMul a b), jsAdd normA (jsMul a a), jsAdd normB (jsMul b b)))"

definition cosineSums :: "nat jsobject \<Rightarrow> nat jsobject \<Rightarrow> number \<times> number \<times> number" where
  "cosineSums freqA freqB =
     cosineLoop freqA freqB (newSet (objectKeys freqA @ objectKeys freqB))
       (Finite 0, Finite 0, Finite 0)"

definition cosineSimilarity :: "nat jsobject \<Rightarrow> nat jsobject \<Rightarrow> number" where
  "cosineSimilarity freqA freqB =
     (case cosineSums freqA freqB of
        (dot, normA, normB) \<Rightarrow>
          if normA = Finite 0 \<or> normB = Finite 0 then Finite 0
          else jsDiv dot (jsMul (mathSqrt normA) (mathSqrt normB)))"

section \<open>Keyword extraction and matching\<close>

text \<open>
  \<open>Array.prototype.sort\<close> is stable, and the comparator \<open>b[1] - a[1]\<close> orders the
  entries by descending count; \<open>sort_key\<close> is a stable insertion sort.
\<close>

definition extractTopKeywords :: "jsstring list \<Rightarrow> nat \<Rightarrow> jsstring list" where
  "extractTopKeywords tokens topK =
     (let freq = buildFrequency tokens
      in map fst (take topK (sort_key (\<lambda>e. - int (snd e)) (objectEntries freq))))"

record matchResult =
  matched :: "jsstring list"
  missing :: "jsstring list"
  jdCount :: nat
  resumeCount :: nat
  overlapPct :: number

fun matchLoop :: "jsstring list \<Rightarrow> jsstring list \<Rightarrow> jsstring list \<times> jsstring list
    \<Rightarrow> jsstring list \<times> jsstring list" where
  "matchLoop resumeSet [] acc = acc"
| "matchLoop resumeSet (k # ks) (hits, misses) =
     (if k \<in> set resumeSet then matchLoop resumeSet ks (hits @ [k], misses)
      else matchLoop resumeSet ks (hits, misses @ [k]))"

definition matchKeywords :: "jsstring list \<Rightarrow> jsstring list \<Rightarrow> matchResult" where
  "matchKeywords jdKeywords resumeKeywords =
     (let jdSet = newSet jdKeywords;
          resumeSet = newSet resumeKeywords;
          (hits, misses) = matchLoop resumeSet jdSet ([], []);
          jdSize = length jdSet;
          resumeSize = length resumeSet;
          pct = (if jdSize = 0 then Finite 0
                 else jsMul (jsDiv (numberOfNat (length hits)) (numberOfNat jdSize))
                        (Finite 100))
      in \<lparr>matched = hits, missing = misses, jdCount = jdSize,
          resumeCount = resumeSize, overlapPct = pct\<rparr>)"

section \<open>Feedback\<close>

definition emDash :: unit16 where
  "emDash = 0x2014"

definition msgExcellent :: jsstring where
  "msgExcellent = js ''Excellent fit '' @ [emDash] @
     js '' the resume is highly aligned with the job description.''"

definition msgGood :: jsstring where
  "msgGood = js ''Good fit '' @ [emDash] @
     js '' candidate is a strong match with a few improvement areas.''"

definition msgPartial :: jsstring where
  "msgPartial = js ''Partial fit '' @ [emDash] @
     js '' some relevant skills present but there are notable gaps.''"

definition msgLow :: jsstring where
  "msgLow = js ''Low fit '' @ [emDash] @
     js '' there are significant gaps in alignment with this role.''"

definition msgNoGaps :: jsstring where
  "msgNoGaps = js ''No major JD keywords appear to be missing in the resume.''"

definition msgTailor :: jsstring where
  "msgTailor = js (''Consider tailoring the resume by explicitly mentioning relevant tools, '' @
     ''technologies, and responsibilities from the JD.'')"

definition msgReady :: jsstring where
  "msgReady =
     js ''Candidate looks ready for this role. Focus the interview on depth and real projects.''"

text \<open>The decimal form of a length, as a template literal prints it.\<close>

fun numberToString :: "nat \<Rightarrow> jsstring" where
  "numberToString n =
     (if n < 10 then [0x30 + of_nat n]
      else numberToString (n div 10) @ [0x30 + of_nat (n mod 10)])"

definition generateFeedback :: "real \<Rightarrow> real \<Rightarrow> jsstring list \<Rightarrow> jsstring list" where
  "generateFeedback score pct misses =
     (let fb = [];
          fb = fb @
            [if score \<ge> 85 then msgExcellent
             else if score \<ge> 65 then msgGood
             else if score \<ge> 40 then msgPartial
             else msgLow];
          fb = fb @
            [if length misses > 0 \<and> length misses \<le> 8 then
               js ''Missing important keywords/skills: '' @ join (js '', '') misses @ js ''.''
             else if length misses > 8 then
               (let top = take 8 misses
                in js ''Missing '' @ numberToString (length misses) @
                   js '' JD keywords. Key missing skills: '' @ join (js '', '') top @ js ''.'')
             else msgNoGaps];
          fb = fb @ [if score < 85 then msgTailor else msgReady]
      in fb)"

section \<open>The request handler\<close>

record scoreResult =
  match_score :: number
  semantic_similarity :: number
  overlap_pct :: number
  skills_matched :: "jsstring list"
  missing_skills :: "jsstring list"
  jd_skill_count :: nat
  resume_skill_count :: nat
  feedback :: "jsstring list"

text \<open>
  The literals \<open>0.6\<close> and \<open>0.4\<close> denote the doubles nearest to them; \<open>100\<close> is exact.
\<close>

definition semanticWeight :: number where
  "semanticWeight = toNumber (6 / 10)"

definition keywordWeight :: number where
  "keywordWeight = toNumber (4 / 10)"

text \<open>
  \<open>generateFeedback\<close> called on numbers. A finite score is compared as the real it
  stands for. Plus infinity passes every test \<open>score >= c\<close> and fails \<open>score < 85\<close>, as 85
  does; minus infinity does the opposite, as 0 does; NaN fails every comparison, which
  selects the last tier and the second closing message. The overlap percentage is passed
  on but never read, so the real that stands for it does not matter.
\<close>

definition realOf :: "number \<Rightarrow> real" where
  "realOf a = (case a of Finite x \<Rightarrow> x | _ \<Rightarrow> 0)"

definition feedbackFor :: "number \<Rightarrow> number \<Rightarrow> jsstring list \<Rightarrow> jsstring list" where
  "feedbackFor score pct misses =
     (case score of
        Finite s \<Rightarrow> generateFeedback s (realOf pct) misses
      | PlusInfinity \<Rightarrow> generateFeedback 85 (realOf pct) misses
      | MinusInfinity \<Rightarrow> generateFeedback 0 (realOf pct) misses
      | NaN \<Rightarrow> (generateFeedback 0 (realOf pct) misses)[2 := msgReady])"

text \<open>The body of the \<open>try\<close> block, on two strings.\<close>

definition computeMatch :: "casing \<Rightarrow> jsstring \<Rightarrow> jsstring \<Rightarrow> scoreResult" where
  "computeMatch uc jd_text resume_text =
     (let jdTokens = tokenize uc jd_text 2;
          resumeTokens = tokenize uc resume_text 2;
          jdKeywords = extractTopKeywords jdTokens 200;
          resumeKeywords = extractTopKeywords resumeTokens 400;
          m = matchKeywords jdKeywords resumeKeywords;
          jdFreq = buildFrequency jdTokens;
          resumeFreq = buildFrequency resumeTokens;
          semanticSimilarity = cosineSimilarity jdFreq resumeFreq;
          semanticScorePct = jsMul semanticSimilarity (Finite 100);
          finalScore = jsAdd (jsMul semanticScorePct semanticWeight)
                             (jsMul (overlapPct m) keywordWeight);
          matchScore = jsDiv (mathRound (jsMul finalScore (Finite 100))) (Finite 100);
          fb = feedbackFor matchScore (overlapPct m) (missing m)
      in \<lparr>match_score = matchScore, semantic_similarity = semanticSimilarity,
          overlap_pct = overlapPct m, skills_matched = matched m,
          missing_skills = missing m, jd_skill_count = jdCount m,
          resume_skill_count = resumeCount m, feedback = fb\<rparr>)"

text \<open>
  The values a parsed request body can hold in \<open>jd_text\<close> and \<open>resume_text\<close>. \<open>JObject\<close>
  stands for any object or array. A field that is absent reads as \<open>JUndefined\<close>, and so
  does every field when the body itself is absent (\<open>req.body || {}\<close>).
\<close>

datatype jsval = JUndefined | JNull | JBool bool | JNumber real | JString jsstring | JObject

fun truthy :: "jsval \<Rightarrow> bool" where
  "truthy JUndefined = False"
| "truthy JNull = False"
| "truthy (JBool b) = b"
| "truthy (JNumber x) = (x \<noteq> 0)"
| "truthy (JString s) = (s \<noteq> [])"
| "truthy JObject = True"

record request =
  httpMethod :: string
  body :: "(string \<rightharpoonup> jsval) option"

definition field :: "request \<Rightarrow> string \<Rightarrow> jsval" where
  "field req name =
     (case body req of
        None \<Rightarrow> JUndefined
      | Some props \<Rightarrow> (case props name of None \<Rightarrow> JUndefined | Some v \<Rightarrow> v))"

datatype payload =
  ErrorBody string
  | InternalErrorBody string string
  | ResultBody scoreResult

type_synonym response = "nat \<times> payload"

text \<open>
  What the \<open>try\<close> block does with the two values: on strings it computes the result; on
  any other truthy value the call \<open>text.toLowerCase()\<close> in \<open>normalizeText\<close> throws a
  TypeError, whose message the \<open>catch\<close> clause reports.
\<close>

definition runCore :: "casing \<Rightarrow> jsval \<Rightarrow> jsval \<Rightarrow> string + scoreResult" where
  "runCore uc jd_text resume_text =
     (case (jd_text, resume_text) of
        (JString j, JString r) \<Rightarrow> Inr (computeMatch uc j r)
      | _ \<Rightarrow> Inl ''text.toLowerCase is not a function'')"

text \<open>
  The function that \<open>index.js\<close> passes to the \<open>cors\<close> middleware, with the scoring
  pipeline as its argument \<open>core\<close>, so that a statement about every \<open>core\<close> is a
  statement about what happens without running the pipeline. What the middleware and the
  hosting platform do before they call this function (parsing the body, answering a
  preflight request) is not part of the repository and not part of the model.
\<close>

definition handleWith :: "(jsval \<Rightarrow> jsval \<Rightarrow> string + scoreResult) \<Rightarrow> request \<Rightarrow> response" where
  "handleWith core req =
     (if httpMethod req \<noteq> ''POST'' then (405, ErrorBody ''Only POST is allowed'')
      else
        let jd_text = field req ''jd_text''; resume_text = field req ''resume_text''
        in if \<not> truthy jd_text \<or> \<not> truthy resume_text then
             (400, ErrorBody
               ''Both 'jd_text' and 'resume_text' are required in the request body.'')
           else
             (case core jd_text resume_text of
                Inr result \<Rightarrow> (200, ResultBody result)
              | Inl message \<Rightarrow>
                  (500, InternalErrorBody ''Internal error computing match.'' message)))"

definition matchJDandResume :: "casing \<Rightarrow> request \<Rightarrow> response" where
  "matchJDandResume uc req = handleWith (runCore uc) req"

section \<open>Notions of the specification\<close>


text \<open>
  Rounding to two decimal places as the specification words it: the nearest multiple of
  \<open>0.01\<close>, a tie going away from zero.
\<close>

definition roundHalfAwayFromZero :: "real \<Rightarrow> real" where
  "roundHalfAwayFromZero x = sgn x * of_int \<lfloor>\<bar>x\<bar> + 1 / 2\<rfloor>"

definition roundTo2Decimals :: "real \<Rightarrow> real" where
  "roundTo2Decimals x = roundHalfAwayFromZero (x * 100) / 100"

section \<open>Inputs of the examples\<close>

text \<open>Twenty-five keywords \<open>aa\<close>, \<open>bb\<close>, ..., \<open>yy\<close>, and the first seven of them.\<close>

definition twentyFiveKeywords :: "jsstring list" where
  "twentyFiveKeywords = map (\<lambda>c. [c, c]) (js ''abcdefghijklmnopqrstuvwxy'')"

definition sevenKeywords :: "jsstring list" where
  "sevenKeywords = map (\<lambda>c. [c, c]) (js ''abcdefg'')"

text \<open>
  A job description of eight skills, and a resume that names three of them once, an
  unrelated word eleven times and another one twice.
\<close>

definition eightSkills :: jsstring where
  "eightSkills = js ''aa bb cc dd ee ff gg hh''"

definition threeSharedSkills :: jsstring where
  "threeSharedSkills = js ''aa bb cc xx xx xx xx xx xx xx xx xx xx xx yy yy''"

section \<open>Properties of sets and keyword matching\<close>

lemma set_foldl_setAdd: "set (foldl setAdd acc xs) = set acc \<union> set xs"
  by (induction xs arbitrary: acc) (auto simp: setAdd_def)

lemma distinct_foldl_setAdd: "distinct acc \<Longrightarrow> distinct (foldl setAdd acc xs)"
  by (induction xs arbitrary: acc) (auto simp: setAdd_def)

lemma set_newSet: "set (newSet xs) = set xs"
  by (simp add: newSet_def set_foldl_setAdd)

lemma distinct_newSet: "distinct (newSet xs)"
  by (simp add: newSet_def distinct_foldl_setAdd)

lemma matchLoop_filter:
  "matchLoop rs ks (hits, misses) =
     (hits @ filter (\<lambda>k. k \<in> set rs) ks, misses @ filter (\<lambda>k. k \<notin> set rs) ks)"
  by (induction ks arbitrary: hits misses) auto

lemma matched_matchKeywords:
  "matched (matchKeywords jd resume) = filter (\<lambda>k. k \<in> set resume) (newSet jd)"
  by (simp add: matchKeywords_def Let_def matchLoop_filter set_newSet)

lemma missing_matchKeywords:
  "missing (matchKeywords jd resume) = filter (\<lambda>k. k \<notin> set resume) (newSet jd)"
  by (simp add: matchKeywords_def Let_def matchLoop_filter set_newSet)

section \<open>Properties of the feedback and of the request check\<close>

lemma tier_messages_distinct: "distinct [msgExcellent, msgGood, msgPartial, msgLow]"
  by (simp add: msgExcellent_def msgGood_def msgPartial_def msgLow_def js_def)

lemma closing_messages_distinct: "msgTailor \<noteq> msgReady"
  by (simp add: msgTailor_def msgReady_def js_def)

lemma list_of_length_3: "length xs = 3 \<Longrightarrow> xs = [xs ! 0, xs ! 1, xs ! 2]"
  by (cases xs; cases "tl xs"; cases "tl (tl xs)") auto

text \<open>
  C3: for every score and every list of missing keywords, \<open>generateFeedback\<close> returns
  exactly three messages. The first is the tier message: excellent fit from 85 up, good
  fit in [65, 85), partial fit in [40, 65), low fit below 40; so 85.00 selects excellent
  fit and 84.99 selects good fit, and the four tier messages differ from one another. The
  second is the no-gaps message for an empty list, the whole comma-joined list for 1 to 8
  keywords, and the count followed by the first 8 for more than 8. The third is the
  tailoring advice below 85 and the interview-readiness message otherwise.
\<close>

theorem generateFeedback_messages:
  fixes score pct :: real and ms :: "jsstring list"
  defines "fb \<equiv> generateFeedback score pct ms"
  shows "length fb = 3
    \<and> (score \<ge> 85 \<longrightarrow> fb ! 0 = msgExcellent)
    \<and> (65 \<le> score \<and> score < 85 \<longrightarrow> fb ! 0 = msgGood)
    \<and> (40 \<le> score \<and> score < 65 \<longrightarrow> fb ! 0 = msgPartial)
    \<and> (score < 40 \<longrightarrow> fb ! 0 = msgLow)
    \<and> generateFeedback 85 pct ms ! 0 = msgExcellent
    \<and> generateFeedback (8499 / 100) pct ms ! 0 = msgGood
    \<and> (ms = [] \<longrightarrow> fb ! 1 = msgNoGaps)
    \<and> (1 \<le> length ms \<and> length ms \<le> 8 \<longrightarrow>
          fb ! 1 = js ''Missing important keywords/skills: '' @ join (js '', '') ms @ js ''.'')
    \<and> (length ms > 8 \<longrightarrow>
          fb ! 1 = js ''Missing '' @ numberToString (length ms) @
                  js '' JD keywords. Key missing skills: '' @ join (js '', '') (take 8 ms) @
                  js ''.'')
    \<and> (score < 85 \<longrightarrow> fb ! 2 = msgTailor)
    \<and> (\<not> score < 85 \<longrightarrow> fb ! 2 = msgReady)
    \<and> distinct [msgExcellent, msgGood, msgPartial, msgLow]
    \<and> msgTailor \<noteq> msgReady"
  unfolding fb_def generateFeedback_def Let_def
  using tier_messages_distinct closing_messages_distinct
  by (simp del: distinct.simps numberToString.simps)

theorem generateFeedback_messages_witness:
  "generateFeedback 85 100 [] = [msgExcellent, msgNoGaps, msgReady]
   \<and> generateFeedback 70 50 [js ''sql'', js ''aws''] =
       [msgGood, js ''Missing important keywords/skills: sql, aws.'', msgTailor]
   \<and> generateFeedback 50 10
        (map js [''a'', ''b'', ''c'', ''d'', ''e'', ''f'', ''g'', ''h'', ''i'', ''j'']) =
       [msgPartial, js ''Missing 10 JD keywords. Key missing skills: a, b, c, d, e, f, g, h.'',
        msgTailor]
   \<and> generateFeedback 10 0 [] ! 0 = msgLow"
proof -
  have 1: "generateFeedback 85 100 [] = [msgExcellent, msgNoGaps, msgReady]"
    using generateFeedback_messages [of 85 100 "[]"]
      list_of_length_3 [of "generateFeedback 85 100 []"]
    by simp
  have 2: "generateFeedback 70 50 [js ''sql'', js ''aws''] =
       [msgGood, js ''Missing important keywords/skills: sql, aws.'', msgTailor]"
    using generateFeedback_messages [of 70 50 "[js ''sql'', js ''aws'']"]
      list_of_length_3 [of "generateFeedback 70 50 [js ''sql'', js ''aws'']"]
    by (simp add: js_def)
  have 3: "generateFeedback 50 10
        (map js [''a'', ''b'', ''c'', ''d'', ''e'', ''f'', ''g'', ''h'', ''i'', ''j'']) =
       [msgPartial, js ''Missing 10 JD keywords. Key missing skills: a, b, c, d, e, f, g, h.'',
        msgTailor]"
    using generateFeedback_messages
        [of 50 10 "map js [''a'', ''b'', ''c'', ''d'', ''e'', ''f'', ''g'', ''h'', ''i'', ''j'']"]
      list_of_length_3 [of "generateFeedback 50 10
        (map js [''a'', ''b'', ''c'', ''d'', ''e'', ''f'', ''g'', ''h'', ''i'', ''j''])"]
    by (simp add: js_def)
  have 4: "generateFeedback 10 0 [] ! 0 = msgLow"
    using generateFeedback_messages [of 10 0 "[]"] by simp
  from 1 2 3 4 show ?thesis by (intro conjI)
qed

text \<open>
  C4: for every request in which \<open>jd_text\<close> or \<open>resume_text\<close> is missing, empty or
  otherwise falsy, the handler answers with a client error carrying a fixed message
  (status 400 for a POST request, status 405 for any other method), whatever the scoring
  pipeline \<open>core\<close> is: the pipeline is not run.
\<close>

theorem missing_text_client_error:
  assumes "\<not> truthy (field req ''jd_text'') \<or> \<not> truthy (field req ''resume_text'')"
  shows "(\<forall>core. handleWith core req =
           (if httpMethod req = ''POST''
            then (400, ErrorBody
                   ''Both 'jd_text' and 'resume_text' are required in the request body.'')
            else (405, ErrorBody ''Only POST is allowed'')))
    \<and> matchJDandResume uc req =
           (if httpMethod req = ''POST''
            then (400, ErrorBody
                   ''Both 'jd_text' and 'resume_text' are required in the request body.'')
            else (405, ErrorBody ''Only POST is allowed''))"
  using assms by (auto simp: handleWith_def matchJDandResume_def Let_def)

lemma request_reaches_core:
  assumes "httpMethod req = ''POST''"
    and "field req ''jd_text'' = JString jd" and "jd \<noteq> []"
    and "field req ''resume_text'' = JString res" and "res \<noteq> []"
  shows "matchJDandResume uc req = (200, ResultBody (computeMatch uc jd res))"
  using assms by (simp add: matchJDandResume_def handleWith_def runCore_def)

theorem missing_text_client_error_witness:
  "\<not> truthy (field \<lparr>httpMethod = ''POST'',
        body = Some [''jd_text'' \<mapsto> JString (js ''python''), ''resume_text'' \<mapsto> JString []]\<rparr>
        ''resume_text'')
   \<and> matchJDandResume asciiCasing \<lparr>httpMethod = ''POST'',
        body = Some [''jd_text'' \<mapsto> JString (js ''python''), ''resume_text'' \<mapsto> JString []]\<rparr> =
       (400, ErrorBody ''Both 'jd_text' and 'resume_text' are required in the request body.'')
   \<and> \<not> truthy (field \<lparr>httpMethod = ''POST'', body = None\<rparr> ''jd_text'')
   \<and> matchJDandResume asciiCasing \<lparr>httpMethod = ''POST'', body = None\<rparr> =
       (400, ErrorBody ''Both 'jd_text' and 'resume_text' are required in the request body.'')"
proof -
  have a: "\<not> truthy (field \<lparr>httpMethod = ''POST'',
        body = Some [''jd_text'' \<mapsto> JString (js ''python''), ''resume_text'' \<mapsto> JString []]\<rparr>
        ''resume_text'')"
    by (simp add: field_def)
  have b: "\<not> truthy (field \<lparr>httpMethod = ''POST'', body = None\<rparr> ''jd_text'')"
    by (simp add: field_def)
  show ?thesis
    using a b missing_text_client_error [OF disjI2 [OF a], of asciiCasing]
      missing_text_client_error [OF disjI1 [OF b], of asciiCasing]
    by simp
qed

section \<open>Properties of the normaliser and the tokeniser\<close>

lemma isKept_not_upper: "isKept c \<Longrightarrow> \<not> (0x41 \<le> c \<and> c \<le> 0x5A)"
  by (auto simp: isKept_def isDigit_def isWhiteSpace_def word_le_nat_alt)

lemma isKept_fixed: "isKept c \<Longrightarrow> c < 0x80 \<or> isWhiteSpace c"
  by (auto simp: isKept_def isDigit_def word_le_nat_alt word_less_nat_alt)

lemma isKept_not_quote: "isKept c \<Longrightarrow> \<not> isCurlyQuote c"
  by (auto simp: isKept_def isDigit_def isWhiteSpace_def isCurlyQuote_def)

lemma lowerUnit_kept: "isKept c \<Longrightarrow> lowerUnit uc pre c post = [c]"
  using isKept_not_upper [of c] isKept_fixed [of c] by (auto simp: lowerUnit_def)

lemma lowerFrom_kept: "list_all isKept s \<Longrightarrow> lowerFrom uc pre s = s"
  by (induction s arbitrary: pre) (simp_all add: lowerUnit_kept)

lemma replaceQuotes_kept: "list_all isKept s \<Longrightarrow> replaceQuotes s = s"
  by (induction s) (simp_all add: replaceQuotes_def isKept_not_quote)

lemma replaceOther_kept: "list_all isKept s \<Longrightarrow> replaceOther s = s"
  by (induction s) (simp_all add: replaceOther_def)

lemma isKept_space: "isKept 0x20"
  by (simp add: isKept_def isWhiteSpace_def)

lemma list_all_replaceOther: "list_all isKept (replaceOther s)"
  by (induction s) (simp_all add: replaceOther_def isKept_space)

lemma list_all_normalizeText: "list_all isKept (normalizeText uc x)"
  by (simp add: normalizeText_def list_all_replaceOther)

text \<open>
  C9: for every string \<open>x\<close>, normalising the normalised text changes nothing:
  \<open>normalizeText(normalizeText(x)) == normalizeText(x)\<close>.
\<close>

theorem normalizeText_idempotent:
  "normalizeText uc (normalizeText uc x) = normalizeText uc x"
proof -
  have k: "list_all isKept (normalizeText uc x)"
    by (rule list_all_normalizeText)
  have "normalizeText uc s = s" if "list_all isKept s" for s
    using that
    by (simp add: normalizeText_def toLowerCase_def lowerFrom_kept replaceQuotes_kept
        replaceOther_kept)
  from this [OF k] show ?thesis .
qed

lemma set_splitWhite: "p \<in> set (splitWhite cur s) \<Longrightarrow> set p \<subseteq> set cur \<union> set s"
proof (induction cur s rule: splitWhite.induct)
  case (1 cur)
  then show ?case by simp
next
  case (2 cur c cs)
  show ?case
  proof (cases "isWhiteSpace c")
    case True
    have d: "set (dropWhile isWhiteSpace cs) \<subseteq> set cs"
      by (auto dest: set_dropWhileD)
    from True 2(3) have "p = cur \<or> p \<in> set (splitWhite [] (dropWhile isWhiteSpace cs))"
      by simp
    then show ?thesis
    proof
      assume "p = cur" then show ?thesis by auto
    next
      assume "p \<in> set (splitWhite [] (dropWhile isWhiteSpace cs))"
      from 2(1) [OF True this] d show ?thesis by auto
    qed
  next
    case False
    with 2(3) have "p \<in> set (splitWhite (cur @ [c]) cs)" by simp
    from 2(2) [OF False this] show ?thesis by auto
  qed
qed

lemma no_white_splitWhite:
  "p \<in> set (splitWhite cur s) \<Longrightarrow> \<forall>c\<in>set cur. \<not> isWhiteSpace c \<Longrightarrow> \<forall>c\<in>set p. \<not> isWhiteSpace c"
proof (induction cur s rule: splitWhite.induct)
  case (1 cur)
  then show ?case by simp
next
  case (2 cur c cs)
  show ?case
  proof (cases "isWhiteSpace c")
    case True
    with 2 show ?thesis by auto
  next
    case False
    with 2 show ?thesis by auto
  qed
qed

lemma tokenLoop_filter:
  "tokenLoop n ps = filter (\<lambda>t. n \<le> length t \<and> t \<notin> set STOPWORDS \<and> \<not> isAllDigits t) ps"
  by (induction ps) (simp_all add: not_less)

lemma set_tokenLoop:
  "set (tokenLoop n ps) = {t \<in> set ps. n \<le> length t \<and> t \<notin> set STOPWORDS \<and> \<not> isAllDigits t}"
  by (simp add: tokenLoop_filter)


lemma tokenize_parts:
  "t \<in> set (tokenize uc x n) \<Longrightarrow>
     t \<noteq> [] \<and> set t \<subseteq> set (normalizeText uc x) \<and> n \<le> length t \<and> t \<notin> set STOPWORDS
     \<and> \<not> isAllDigits t \<and> (\<forall>c\<in>set t. \<not> isWhiteSpace c)"
  using set_splitWhite [of t "[]" "normalizeText uc x"] 
    no_white_splitWhite [of t "[]" "normalizeText uc x"]
  by (auto simp: tokenize_def Let_def set_tokenLoop)

lemma apostrophe_not_kept: "\<not> isKept 0x27"
  by (simp add: isKept_def isDigit_def isWhiteSpace_def)

text \<open>
  C10: for every input string, every code unit of the output of \<open>normalizeText\<close> is a
  lowercase letter, a digit, a white-space character, \<open>+\<close>, \<open>#\<close>, \<open>-\<close> or \<open>_\<close>. The plain
  apostrophe that replaces a curly quote is replaced by a space in the same call, so no
  apostrophe is left in the normalised text and no token contains one.
\<close>

theorem normalizeText_alphabet:
  "(\<forall>c \<in> set (normalizeText uc x).
      (0x61 \<le> c \<and> c \<le> 0x7A) \<or> (0x30 \<le> c \<and> c \<le> 0x39) \<or> isWhiteSpace c
      \<or> c = 0x2B \<or> c = 0x23 \<or> c = 0x2D \<or> c = 0x5F)
   \<and> 0x27 \<notin> set (normalizeText uc x)
   \<and> (\<forall>q. isCurlyQuote q \<longrightarrow>
         replaceQuotes [q] = [0x27] \<and> replaceOther (replaceQuotes [q]) = [0x20]
         \<and> normalizeText uc [q] = [0x20])
   \<and> (\<forall>t \<in> set (tokenize uc x minLen). 0x27 \<notin> set t)"
proof -
  have k: "\<forall>c \<in> set (normalizeText uc x). isKept c"
    using list_all_normalizeText [of uc x] by (simp add: list_all_iff)
  have a: "0x27 \<notin> set (normalizeText uc x)"
    using k apostrophe_not_kept by blast
  have t: "\<forall>t \<in> set (tokenize uc x minLen). 0x27 \<notin> set t"
    using a tokenize_parts [of _ uc x minLen] by blast
  have q: "\<forall>q. isCurlyQuote q \<longrightarrow>
         replaceQuotes [q] = [0x27] \<and> replaceOther (replaceQuotes [q]) = [0x20]
         \<and> normalizeText uc [q] = [0x20]"
    by (auto simp: normalizeText_def toLowerCase_def lowerUnit_def replaceQuotes_def
        replaceOther_def apostrophe_not_kept isCurlyQuote_def)
  have k': "\<forall>c \<in> set (normalizeText uc x).
      (0x61 \<le> c \<and> c \<le> 0x7A) \<or> (0x30 \<le> c \<and> c \<le> 0x39) \<or> isWhiteSpace c
      \<or> c = 0x2B \<or> c = 0x23 \<or> c = 0x2D \<or> c = 0x5F"
    using k by (simp add: isKept_def isDigit_def)
  from k' a t q show ?thesis
    by (intro conjI)
qed

lemma STOPWORDS_chars: "STOPWORDS = map (\<lambda>c. [c]) (js ''a,boutvefrginslmdycwhjp'')"
  by (simp add: STOPWORDS_def stopwordArgument_def stopwordHead_def stopwordTail_def js_def
      newSet_def setAdd_def)

lemmas charClasses = isKept_def isDigit_def isWhiteSpace_def isCurlyQuote_def isAllDigits_def

lemmas runTokenizer = tokenize_def normalizeText_def toLowerCase_def lowerUnit_def
  replaceQuotes_def replaceOther_def charClasses STOPWORDS_chars js_def

theorem normalizeText_alphabet_witness:
  "normalizeText asciiCasing (js ''Don'' @ [0x2019] @ js ''t use C++'') = js ''don t use c++''
   \<and> 0x27 \<notin> set (normalizeText asciiCasing (js ''Don'' @ [0x2019] @ js ''t use C++''))
   \<and> isCurlyQuote 0x2019 \<and> normalizeText asciiCasing [0x2019] = [0x20]
   \<and> tokenize asciiCasing (js ''Don'' @ [0x2019] @ js ''t use C++'') 2 =
       [js ''don'', js ''use'', js ''c++'']"
  using normalizeText_alphabet [of asciiCasing "js ''Don'' @ [0x2019] @ js ''t use C++''" 2]
  by (simp add: runTokenizer)

text \<open>
  C7: every token emitted by \<open>tokenize\<close> is at least \<open>minLen\<close> long, is not a stopword and
  is not made of digits only. The set the code builds holds the single characters of the
  stopword literals, not the words, so the text \<open>the\<close> comes out as the token \<open>the\<close>,
  one of the enumerated stopwords.
\<close>

theorem tokenize_emits_stopword:
  "tokenize uc (js ''the'') 2 = [js ''the'']
   \<and> js ''the'' \<in> set enumeratedStopwords
   \<and> STOPWORDS = map (\<lambda>c. [c]) (js ''a,boutvefrginslmdycwhjp'')"
proof -
  have a: "tokenize uc (js ''the'') 2 = [js ''the'']"
    by (simp add: runTokenizer)
  have b: "js ''the'' \<in> set enumeratedStopwords"
    by (simp add: enumeratedStopwords_def stopwordHead_def stopwordTail_def js_def)
  from a b STOPWORDS_chars show ?thesis by (intro conjI)
qed

section \<open>Properties of frequency maps and keyword extraction\<close>

lemma keys_objSet: "map fst (objSet ob k v) = setAdd (map fst ob) k"
  by (induction ob) (auto simp: setAdd_def)

lemma map_of_objSet: "map_of (objSet ob k v) = (map_of ob)(k \<mapsto> v)"
  by (induction ob) (auto simp: fun_eq_iff)

lemma countOf_objSet: "countOf (objSet ob k v) t = (if t = k then v else countOf ob t)"
  by (simp add: countOf_def objGet_def map_of_objSet)

lemma keys_frequency_step:
  "map fst (foldl (\<lambda>freq t. objSet freq t (countOf freq t + 1)) ob ts) =
     foldl setAdd (map fst ob) ts"
  by (induction ts arbitrary: ob) (simp_all add: keys_objSet)

lemma countOf_frequency_step:
  "countOf (foldl (\<lambda>freq t. objSet freq t (countOf freq t + 1)) ob ts) k =
     countOf ob k + count_list ts k"
  by (induction ts arbitrary: ob) (simp_all add: countOf_objSet)

lemma keys_buildFrequency: "map fst (buildFrequency tokens) = newSet tokens"
  unfolding buildFrequency_def keys_frequency_step newSet_def by simp

lemma countOf_buildFrequency: "countOf (buildFrequency tokens) k = count_list tokens k"
  unfolding buildFrequency_def countOf_frequency_step by (simp add: countOf_def objGet_def)



lemma set_objectEntries: "set (objectEntries ob) = set ob"
  by (auto simp: objectEntries_def)

lemma length_objectEntries: "length (objectEntries ob) = length ob"
  by (simp add: objectEntries_def sum_length_filter_compl)




lemma newSet_snoc: "newSet (xs @ [x]) = setAdd (newSet xs) x"
  by (simp add: newSet_def)








lemma extractTopKeywords_alt:
  "extractTopKeywords tokens topK =
     map fst (take topK (sort_key (\<lambda>e. - int (snd e)) (objectEntries (buildFrequency tokens))))"
  by (simp add: extractTopKeywords_def)

lemma length_extractTopKeywords:
  "length (extractTopKeywords tokens topK) = min topK (card (set tokens))"
proof -
  have "length (buildFrequency tokens) = card (set tokens)"
    using arg_cong [OF keys_buildFrequency [of tokens], of length]
      distinct_card [OF distinct_newSet [of tokens]]
    by (simp add: set_newSet)
  then show ?thesis
    by (simp add: extractTopKeywords_alt length_objectEntries min.commute)
qed








lemma newSet_distinct_id: "distinct xs \<Longrightarrow> newSet xs = xs"
proof (induction xs rule: rev_induct)
  case Nil
  then show ?case by (simp add: newSet_def)
next
  case (snoc x xs)
  then show ?case by (simp add: newSet_snoc setAdd_def)
qed







section \<open>Properties of rounding to binary64\<close>

lemma roundEven_floor: "\<lfloor>y\<rfloor> \<le> roundEven y \<and> roundEven y \<le> \<lfloor>y\<rfloor> + 1"
  by (simp add: roundEven_def Let_def)

lemma roundEven_error: "\<bar>of_int (roundEven y) - y\<bar> \<le> 1 / 2"
proof -
  have "of_int \<lfloor>y\<rfloor> \<le> y" "y < of_int \<lfloor>y\<rfloor> + 1" by linarith+
  then show ?thesis
    by (auto simp: roundEven_def Let_def abs_le_iff)
qed

lemma roundEven_of_int: "roundEven (of_int n) = n"
  by (simp add: roundEven_def)

lemma roundEven_eqI:
  assumes "\<bar>y - of_int n\<bar> < 1 / 2"
  shows "roundEven y = n"
proof -
  have "\<bar>of_int (roundEven y) - (of_int n :: real)\<bar> < 1"
    using roundEven_error [of y] assms by linarith
  then have "\<bar>roundEven y - n\<bar> < 1"
    by (metis of_int_1 of_int_abs of_int_diff of_int_less_iff)
  then show ?thesis by linarith
qed

lemma roundEven_mono:
  assumes "y \<le> z"
  shows "roundEven y \<le> roundEven z"
proof (cases "\<lfloor>y\<rfloor> = \<lfloor>z\<rfloor>")
  case True
  with assms show ?thesis
    by (auto simp: roundEven_def Let_def)
next
  case False
  with assms have "\<lfloor>y\<rfloor> + 1 \<le> \<lfloor>z\<rfloor>"
    using floor_mono [of y z] by linarith
  then show ?thesis
    using roundEven_floor [of y] roundEven_floor [of z] by linarith
qed

lemma binade_bounds:
  assumes "x \<noteq> 0"
  shows "2 powi binade x \<le> \<bar>x\<bar>" and "\<bar>x\<bar> < 2 powi (binade x + 1)"
proof -
  from assms have pos: "0 < \<bar>x\<bar>" by simp
  have "2 powr real_of_int (binade x) \<le> \<bar>x\<bar> \<and> \<bar>x\<bar> < 2 powr (real_of_int (binade x) + 1)"
    using floor_log_eq_powr_iff [OF pos, of 2 "binade x"] by (simp add: binade_def)
  then show "2 powi binade x \<le> \<bar>x\<bar>" and "\<bar>x\<bar> < 2 powi (binade x + 1)"
    using powr_real_of_int' [of 2 "binade x"] powr_real_of_int' [of 2 "binade x + 1"]
    by (simp_all add: add.commute)
qed

lemma binade_eqI:
  assumes "2 powi e \<le> \<bar>x\<bar>" and "\<bar>x\<bar> < 2 powi (e + 1)"
  shows "binade x = e"
proof -
  have pos: "0 < \<bar>x\<bar>"
    using assms(1) zero_less_power_int [of "2::real" e] by linarith
  have "2 powr real_of_int e \<le> \<bar>x\<bar> \<and> \<bar>x\<bar> < 2 powr (real_of_int e + 1)"
    using assms powr_real_of_int' [of 2 e] powr_real_of_int' [of 2 "e + 1"]
    by (simp add: add.commute)
  then show ?thesis
    using floor_log_eq_powr_iff [OF pos, of 2 e] by (simp add: binade_def)
qed

lemma binade_mono:
  assumes "0 < x" and "x \<le> y"
  shows "binade x \<le> binade y"
  unfolding binade_def using assms by (intro floor_mono) simp


lemma pow2_less_D: "(2::real) powi m < 2 powi n \<Longrightarrow> m < n"
  using power_int_increasing [of n m "2::real"] by (cases "m < n") auto

lemma pow2_le_D: "(2::real) powi m \<le> 2 powi n \<Longrightarrow> m \<le> n"
  using power_int_strict_increasing [of n m "2::real"] by (cases "m \<le> n") auto

lemma roundToDouble_zero: "roundToDouble 0 = 0"
  by (simp add: roundToDouble_def)

lemma ulpExponent_ge: "binade x - 52 \<le> ulpExponent x" "- 1074 \<le> ulpExponent x"
  by (simp_all add: ulpExponent_def)

lemma scaled_less:
  assumes "x \<noteq> 0"
  shows "\<bar>x\<bar> / 2 powi ulpExponent x < 2 ^ 53"
proof -
  have "\<bar>x\<bar> < 2 powi (binade x + 1)"
    using assms by (rule binade_bounds)
  also have "(2::real) powi (binade x + 1) \<le> 2 powi (ulpExponent x + 53)"
    using ulpExponent_ge(1) [of x] by (intro power_int_increasing) simp_all
  also have "(2::real) powi (ulpExponent x + 53) = 2 powi ulpExponent x * 2 ^ 53"
    by (simp add: power_int_add)
  finally show ?thesis
    by (simp add: divide_less_eq mult.commute)
qed

lemma ulpExponent_normal:
  assumes "2 powi (- 1022) \<le> \<bar>x\<bar>"
  shows "ulpExponent x = binade x - 52"
proof -
  have nz: "x \<noteq> 0"
    using assms zero_less_power_int [of "2::real" "- 1022"] by auto
  have "(2::real) powi (- 1022) < 2 powi (binade x + 1)"
    using assms binade_bounds(2) [OF nz] by linarith
  then have "- 1022 < binade x + 1"
    by (rule pow2_less_D)
  then show ?thesis by (simp add: ulpExponent_def)
qed

lemma scaled_ge:
  assumes "x \<noteq> 0" and "ulpExponent x = binade x - 52"
  shows "2 ^ 52 \<le> \<bar>x\<bar> / 2 powi ulpExponent x"
proof -
  have "(2::real) powi ulpExponent x * 2 ^ 52 = 2 powi binade x"
    unfolding assms(2) by (simp add: power_int_diff)
  also have "\<dots> \<le> \<bar>x\<bar>"
    using assms(1) by (rule binade_bounds)
  finally show ?thesis
    by (simp add: le_divide_eq mult.commute)
qed

lemma roundToDouble_nonneg:
  assumes "0 \<le> x"
  shows "0 \<le> roundToDouble x"
proof (cases "x = 0")
  case True
  then show ?thesis by (simp add: roundToDouble_zero)
next
  case False
  have "0 \<le> x / 2 powi ulpExponent x"
    using assms by simp
  then have "roundEven 0 \<le> roundEven (x / 2 powi ulpExponent x)"
    by (rule roundEven_mono)
  then have "0 \<le> roundEven (x / 2 powi ulpExponent x)"
    using roundEven_of_int [of 0] by simp
  with False show ?thesis
    by (simp add: roundToDouble_def)
qed

lemma roundToDouble_error:
  assumes "x \<noteq> 0"
  shows "\<bar>roundToDouble x - x\<bar> \<le> 2 powi (ulpExponent x - 1)"
proof -
  let ?u = "(2::real) powi ulpExponent x"
  have u: "0 < ?u" by simp
  have "\<bar>of_int (roundEven (x / ?u)) - x / ?u\<bar> \<le> 1 / 2"
    by (rule roundEven_error)
  then have "\<bar>of_int (roundEven (x / ?u)) - x / ?u\<bar> * ?u \<le> 1 / 2 * ?u"
    using u by (intro mult_right_mono) simp_all
  moreover have "\<bar>of_int (roundEven (x / ?u)) - x / ?u\<bar> * ?u
      = \<bar>of_int (roundEven (x / ?u)) * ?u - x\<bar>"
  proof -
    have "\<bar>of_int (roundEven (x / ?u)) - x / ?u\<bar> * ?u
        = \<bar>(of_int (roundEven (x / ?u)) - x / ?u) * ?u\<bar>"
      using u by (simp only: abs_mult abs_of_pos)
    also have "(of_int (roundEven (x / ?u)) - x / ?u) * ?u
        = of_int (roundEven (x / ?u)) * ?u - x"
      using u by (simp add: left_diff_distrib)
    finally show ?thesis .
  qed
  moreover have "1 / 2 * ?u = 2 powi (ulpExponent x - 1)"
    by (simp add: power_int_diff)
  ultimately show ?thesis
    using assms by (simp add: roundToDouble_def)
qed


lemma binade_less:
  assumes "x \<noteq> 0" and "\<bar>x\<bar> < 2 powi n"
  shows "binade x < n"
proof -
  have "(2::real) powi binade x < 2 powi n"
    using binade_bounds(1) [OF assms(1)] assms(2) by linarith
  then show ?thesis by (rule pow2_less_D)
qed

lemma binade_le:
  assumes "x \<noteq> 0" and "\<bar>x\<bar> \<le> 2 powi n"
  shows "binade x \<le> n"
proof -
  have "(2::real) powi binade x \<le> 2 powi n"
    using binade_bounds(1) [OF assms(1)] assms(2) by linarith
  then show ?thesis by (rule pow2_le_D)
qed

lemma roundToDouble_dyadic:
  assumes "\<bar>m\<bar> < 2 ^ 53" and "- 1074 \<le> k"
  shows "roundToDouble (of_int m * 2 powi k) = of_int m * 2 powi k"
proof (cases "m = 0")
  case True
  then show ?thesis by (simp add: roundToDouble_zero)
next
  case False
  let ?x = "of_int m * (2::real) powi k"
  let ?t = "ulpExponent ?x"
  have nz: "?x \<noteq> 0" using False by simp
  have "\<bar>?x\<bar> = \<bar>of_int m\<bar> * 2 powi k"
    by (simp add: abs_mult)
  also have "\<dots> < 2 ^ 53 * 2 powi k"
    using assms(1) by (intro mult_strict_right_mono) (simp_all flip: of_int_abs)
  also have "\<dots> = 2 powi (k + 53)"
    by (simp add: power_int_add)
  finally have "binade ?x < k + 53"
    using nz by (intro binade_less)
  with assms(2) have t: "?t \<le> k"
    by (simp add: ulpExponent_def)
  then have p: "(2::real) powi (k - ?t) = 2 ^ nat (k - ?t)"
    by (simp add: power_int_nonneg_exp)
  have "?x / 2 powi ?t = of_int m * 2 powi (k - ?t)"
    by (simp add: power_int_diff)
  then have "?x / 2 powi ?t = of_int (m * 2 ^ nat (k - ?t))"
    unfolding p by simp
  then have "roundEven (?x / 2 powi ?t) = m * 2 ^ nat (k - ?t)"
    by (simp only: roundEven_of_int)
  moreover have "of_int (m * 2 ^ nat (k - ?t)) * 2 powi ?t = ?x"
    using t by (simp add: power_int_nonneg_exp [symmetric] power_int_diff)
  ultimately show ?thesis
    using nz by (simp add: roundToDouble_def)
qed

lemma roundToDouble_eqI:
  assumes "2 powi (k + 52) \<le> \<bar>x\<bar>" and "\<bar>x\<bar> < 2 powi (k + 53)" and "- 1074 \<le> k"
    and "\<bar>x / 2 powi k - of_int m\<bar> < 1 / 2"
  shows "roundToDouble x = of_int m * 2 powi k"
proof -
  have "(0::real) < 2 powi (k + 52)" by simp
  with assms(1) have "0 < \<bar>x\<bar>" by linarith
  then have nz: "x \<noteq> 0" by simp
  have "binade x = k + 52"
    using assms(1,2) by (intro binade_eqI) (simp_all add: add.commute add.left_commute)
  with assms(3) have "ulpExponent x = k"
    by (simp add: ulpExponent_def)
  moreover have "roundEven (x / 2 powi k) = m"
    using assms(4) by (rule roundEven_eqI)
  ultimately show ?thesis
    using nz by (simp add: roundToDouble_def)
qed

lemma roundToDouble_mono:
  assumes "0 \<le> x" and "x \<le> y"
  shows "roundToDouble x \<le> roundToDouble y"
proof (cases "x = 0")
  case True
  with assms show ?thesis
    using roundToDouble_nonneg [of y] by (simp add: roundToDouble_zero)
next
  case False
  with assms have x: "0 < x" and y: "0 < y" by simp_all
  let ?s = "ulpExponent x" and ?t = "ulpExponent y"
  have st: "?s \<le> ?t"
    using binade_mono [OF x assms(2)] by (simp add: ulpExponent_def)
  show ?thesis
  proof (cases "?s = ?t")
    case True
    have "x / 2 powi ?t \<le> y / 2 powi ?t"
      using assms(2) by (simp add: divide_right_mono)
    then have "roundEven (x / 2 powi ?t) \<le> roundEven (y / 2 powi ?t)"
      by (rule roundEven_mono)
    then have "real_of_int (roundEven (x / 2 powi ?t)) * 2 powi ?t
        \<le> real_of_int (roundEven (y / 2 powi ?t)) * 2 powi ?t"
      by (intro mult_right_mono) simp_all
    with x y True show ?thesis
      by (simp add: roundToDouble_def)
  next
    case False
    with st have lt: "?s + 1 \<le> ?t" by simp
    then have normal: "?t = binade y - 52"
      using ulpExponent_ge(2) [of x] by (simp add: ulpExponent_def)
    have "x / 2 powi ?s \<le> 2 ^ 53"
      using scaled_less [of x] x by simp
    then have "roundEven (x / 2 powi ?s) \<le> roundEven (of_int (2 ^ 53))"
      by (intro roundEven_mono) simp
    then have "real_of_int (roundEven (x / 2 powi ?s)) \<le> 2 ^ 53"
      unfolding roundEven_of_int by (simp flip: of_int_le_iff)
    then have "real_of_int (roundEven (x / 2 powi ?s)) * 2 powi ?s \<le> 2 ^ 53 * 2 powi ?s"
      by (intro mult_right_mono) simp_all
    also have "\<dots> = 2 ^ 52 * 2 powi (?s + 1)"
      by (simp add: power_int_add)
    also have "\<dots> \<le> 2 ^ 52 * 2 powi ?t"
      using lt by (intro mult_left_mono power_int_increasing) simp_all
    also have "\<dots> \<le> real_of_int (roundEven (y / 2 powi ?t)) * 2 powi ?t"
    proof -
      have "2 ^ 52 \<le> y / 2 powi ?t"
        using scaled_ge [of y, OF _ normal] y by simp
      then have "roundEven (of_int (2 ^ 52)) \<le> roundEven (y / 2 powi ?t)"
        by (intro roundEven_mono) simp
      then have "2 ^ 52 \<le> real_of_int (roundEven (y / 2 powi ?t))"
        unfolding roundEven_of_int by (simp flip: of_int_le_iff)
      then show ?thesis
        by (intro mult_right_mono) simp_all
    qed
    finally show ?thesis
      using x y by (simp add: roundToDouble_def)
  qed
qed

lemma roundToDouble_error_bound:
  assumes "\<bar>x\<bar> \<le> 2 powi E" and "- 1022 \<le> E"
  shows "\<bar>roundToDouble x - x\<bar> \<le> 2 powi (E - 53)"
proof (cases "x = 0")
  case True
  then show ?thesis by (simp add: roundToDouble_zero)
next
  case False
  have "binade x \<le> E"
    using False assms(1) by (rule binade_le)
  with assms(2) have "ulpExponent x - 1 \<le> E - 53"
    by (simp add: ulpExponent_def)
  then have "(2::real) powi (ulpExponent x - 1) \<le> 2 powi (E - 53)"
    by (intro power_int_increasing) simp_all
  with roundToDouble_error [OF False] show ?thesis by linarith
qed

lemma roundToDouble_relative:
  assumes "2 powi (- 1022) \<le> \<bar>x\<bar>"
  shows "\<bar>roundToDouble x - x\<bar> \<le> \<bar>x\<bar> / 2 ^ 53"
proof -
  have nz: "x \<noteq> 0"
    using assms zero_less_power_int [of "2::real" "- 1022"] by auto
  have "(2::real) powi (ulpExponent x - 1) = 2 powi binade x / 2 ^ 53"
    unfolding ulpExponent_normal [OF assms] by (simp add: power_int_diff)
  also have "\<dots> \<le> \<bar>x\<bar> / 2 ^ 53"
    using binade_bounds(1) [OF nz] by (intro divide_right_mono) simp_all
  finally show ?thesis
    using roundToDouble_error [OF nz] by linarith
qed

lemma toNumber_finite:
  assumes "0 \<le> x" and "x \<le> 2 ^ 1023"
  shows "toNumber x = Finite (roundToDouble x)"
proof -
  have "roundToDouble x \<le> roundToDouble (of_int 1 * 2 powi 1023)"
    using assms by (intro roundToDouble_mono) simp_all
  also have "\<dots> = of_int 1 * 2 powi 1023"
    by (rule roundToDouble_dyadic) simp_all
  finally have "roundToDouble x \<le> 2 ^ 1023" by simp
  moreover have "0 \<le> roundToDouble x"
    using assms(1) by (rule roundToDouble_nonneg)
  ultimately have "\<bar>roundToDouble x\<bar> < 2 ^ 1024" by simp
  then show ?thesis by (simp add: toNumber_def Let_def)
qed

section \<open>Exact sums and evaluation of roundings\<close>

lemma toNumber_nat:
  assumes "n < 2 ^ 53"
  shows "toNumber (real n) = Finite (real n)"
proof -
  have "roundToDouble (of_int (int n) * 2 powi 0) = of_int (int n) * 2 powi 0"
    using assms by (intro roundToDouble_dyadic) simp_all
  then have r: "roundToDouble (real n) = real n" by simp
  have "real n \<le> 2 ^ 53"
    using assms by (metis less_imp_le of_nat_le_iff of_nat_numeral of_nat_power)
  also have "(2::real) ^ 53 \<le> 2 ^ 1023"
    by (intro power_increasing) simp_all
  finally show ?thesis
    using toNumber_finite [of "real n"] r by simp
qed

lemma numberOfNat_exact: "n < 2 ^ 53 \<Longrightarrow> numberOfNat n = Finite (real n)"
  by (simp add: numberOfNat_def toNumber_nat)

lemma jsMul_nat:
  "a * b < 2 ^ 53 \<Longrightarrow> jsMul (Finite (real a)) (Finite (real b)) = Finite (real (a * b))"
  using toNumber_nat [of "a * b"] by simp

lemma jsAdd_nat:
  "a + b < 2 ^ 53 \<Longrightarrow> jsAdd (Finite (real a)) (Finite (real b)) = Finite (real (a + b))"
  using toNumber_nat [of "a + b"] by simp

lemma le_square: "(a::nat) \<le> a * a"
  by (cases a) simp_all

lemma cosineLoop_exact:
  assumes "d + (\<Sum>k\<leftarrow>ks. countOf freqA k * countOf freqB k) < 2 ^ 53"
    and "na + (\<Sum>k\<leftarrow>ks. countOf freqA k * countOf freqA k) < 2 ^ 53"
    and "nb + (\<Sum>k\<leftarrow>ks. countOf freqB k * countOf freqB k) < 2 ^ 53"
  shows "cosineLoop freqA freqB ks (Finite (real d), Finite (real na), Finite (real nb)) =
     (Finite (real (d + (\<Sum>k\<leftarrow>ks. countOf freqA k * countOf freqB k))),
      Finite (real (na + (\<Sum>k\<leftarrow>ks. countOf freqA k * countOf freqA k))),
      Finite (real (nb + (\<Sum>k\<leftarrow>ks. countOf freqB k * countOf freqB k))))"
  using assms
proof (induction ks arbitrary: d na nb)
  case Nil
  then show ?case by simp
next
  case (Cons k ks)
  let ?a = "countOf freqA k" and ?b = "countOf freqB k"
  have aa: "?a * ?a < 2 ^ 53" "na + ?a * ?a < 2 ^ 53"
    using Cons.prems(2) by simp_all
  have bb: "?b * ?b < 2 ^ 53" "nb + ?b * ?b < 2 ^ 53"
    using Cons.prems(3) by simp_all
  have a: "?a < 2 ^ 53"
    using aa(1) le_square [of ?a] by linarith
  have b: "?b < 2 ^ 53"
    using bb(1) le_square [of ?b] by linarith
  have ab: "?a * ?b < 2 ^ 53" "d + ?a * ?b < 2 ^ 53"
    using Cons.prems(1) by simp_all
  have step: "cosineLoop freqA freqB (k # ks) (Finite (real d), Finite (real na), Finite (real nb))
      = cosineLoop freqA freqB ks
          (Finite (real (d + ?a * ?b)), Finite (real (na + ?a * ?a)),
           Finite (real (nb + ?b * ?b)))"
    unfolding cosineLoop.simps Let_def numberOfNat_exact [OF a] numberOfNat_exact [OF b]
      jsMul_nat [OF ab(1)] jsMul_nat [OF aa(1)] jsMul_nat [OF bb(1)]
      jsAdd_nat [OF ab(2)] jsAdd_nat [OF aa(2)] jsAdd_nat [OF bb(2)] ..
  show ?case
    unfolding step
    using Cons.IH [of "d + ?a * ?b" "na + ?a * ?a" "nb + ?b * ?b"] Cons.prems
    by (simp add: add.assoc)
qed


lemma roundToDouble_eval:
  fixes j :: nat and m :: int
  assumes "2 ^ 52 < m" and "m < 2 ^ 53" and "j \<le> 1074"
    and "\<bar>x * 2 ^ j - of_int m\<bar> < 1 / 2"
  shows "roundToDouble x = of_int m / 2 ^ j"
proof -
  have "(2::int) ^ 52 + 1 \<le> m" "m \<le> 2 ^ 53 - 1"
    using assms(1,2) by simp_all
  then have "real_of_int (2 ^ 52 + 1) \<le> of_int m" "real_of_int m \<le> of_int (2 ^ 53 - 1)"
    by (simp_all only: of_int_le_iff)
  then have m: "(2::real) ^ 52 + 1 \<le> of_int m" "real_of_int m \<le> 2 ^ 53 - 1"
    by simp_all
  have p: "(2::real) powi (- int j) = 1 / 2 ^ j"
    by (simp add: power_int_minus divide_inverse)
  have lo: "2 ^ 52 \<le> x * 2 ^ j" and hi: "x * 2 ^ j < 2 ^ 53"
    using assms(4) m by linarith+
  have pos: "0 < x * 2 ^ j" using lo by (smt (verit) zero_less_power)
  then have x: "0 < x" by (simp add: zero_less_mult_iff)
  have "roundToDouble x = of_int m * 2 powi (- int j)"
  proof (rule roundToDouble_eqI)
    have "(2::real) powi (- int j + 52) = 2 powi (- int j) * 2 powi 52"
      by (rule power_int_add) simp
    also have "\<dots> = 2 ^ 52 / 2 ^ j"
      unfolding p by simp
    also have "\<dots> \<le> x" using lo by (simp add: divide_le_eq)
    finally show "2 powi (- int j + 52) \<le> \<bar>x\<bar>" using x by simp
    have "x < 2 ^ 53 / 2 ^ j" using hi by (simp add: less_divide_eq)
    also have "\<dots> = 2 powi (- int j) * 2 powi 53"
      unfolding p by simp
    also have "\<dots> = 2 powi (- int j + 53)"
      by (rule power_int_add [symmetric]) simp
    finally show "\<bar>x\<bar> < 2 powi (- int j + 53)" using x by simp
    show "- 1074 \<le> - int j" using assms(3) by simp
    show "\<bar>x / 2 powi (- int j) - of_int m\<bar> < 1 / 2"
      using assms(4) by (simp add: p)
  qed
  then show ?thesis by (simp add: p)
qed

lemma toNumber_eval:
  fixes j :: nat and m :: int
  assumes "2 ^ 52 < m" and "m < 2 ^ 53" and "j \<le> 1074"
    and "\<bar>x * 2 ^ j - of_int m\<bar> < 1 / 2"
  shows "toNumber x = Finite (of_int m / 2 ^ j)"
proof -
  have "(2::int) ^ 52 + 1 \<le> m" "m \<le> 2 ^ 53 - 1"
    using assms(1,2) by simp_all
  then have "real_of_int (2 ^ 52 + 1) \<le> of_int m" "real_of_int m \<le> of_int (2 ^ 53 - 1)"
    by (simp_all only: of_int_le_iff)
  then have m: "(2::real) ^ 52 + 1 \<le> of_int m" "real_of_int m \<le> 2 ^ 53 - 1"
    by simp_all
  have lo: "2 ^ 52 \<le> x * 2 ^ j" and hi: "x * 2 ^ j < 2 ^ 53"
    using assms(4) m by linarith+
  have pos: "0 < x * 2 ^ j" using lo by (smt (verit) zero_less_power)
  then have x: "0 < x" by (simp add: zero_less_mult_iff)
  have "x * 1 \<le> x * 2 ^ j"
    using x by (intro mult_left_mono) simp_all
  with hi have "x \<le> 2 ^ 53" by simp
  also have "(2::real) ^ 53 \<le> 2 ^ 1023"
    by (intro power_increasing) simp_all
  finally have "toNumber x = Finite (roundToDouble x)"
    using x by (intro toNumber_finite) simp_all
  then show ?thesis
    using roundToDouble_eval [OF assms] by simp
qed

lemma toNumber_dyadic:
  fixes j :: nat and m :: int
  assumes "0 \<le> m" and "m < 2 ^ 53" and "j \<le> 1074"
  shows "toNumber (of_int m / 2 ^ j) = Finite (of_int m / 2 ^ j)"
proof -
  have p: "(2::real) powi (- int j) = 1 / 2 ^ j"
    by (simp add: power_int_minus divide_inverse)
  have "roundToDouble (of_int m * 2 powi (- int j)) = of_int m * 2 powi (- int j)"
    using assms by (intro roundToDouble_dyadic) simp_all
  then have r: "roundToDouble (of_int m / 2 ^ j) = of_int m / 2 ^ j"
    by (simp add: p)
  have "real_of_int m / 2 ^ j \<le> real_of_int m / 1"
    using assms(1) by (intro divide_left_mono) simp_all
  also have "\<dots> \<le> 2 ^ 53" using assms(2) by simp
  also have "(2::real) ^ 53 \<le> 2 ^ 1023"
    by (intro power_increasing) simp_all
  finally have "toNumber (of_int m / 2 ^ j) = Finite (roundToDouble (of_int m / 2 ^ j))"
    using assms(1) by (intro toNumber_finite) simp_all
  with r show ?thesis by simp
qed

lemma sqrt_eval:
  fixes j :: nat and m :: int
  assumes "0 < m" and "0 \<le> n"
    and "(of_int (2 * m - 1))\<^sup>2 < 4 * n * 4 ^ j"
    and "4 * n * 4 ^ j < (of_int (2 * m + 1))\<^sup>2"
  shows "\<bar>sqrt n * 2 ^ j - of_int m\<bar> < 1 / 2"
proof -
  have s: "sqrt n * 2 ^ j = sqrt (n * 4 ^ j)"
    by (simp add: real_sqrt_mult real_sqrt_power)
  have "(of_int m - 1 / 2)\<^sup>2 = (of_int (2 * m - 1))\<^sup>2 / (4::real)"
    by (simp add: power2_eq_square field_simps)
  also have "\<dots> < n * 4 ^ j" using assms(3) by simp
  finally have lo: "of_int m - 1 / 2 < sqrt (n * 4 ^ j)"
    by (rule real_less_rsqrt)
  have "n * 4 ^ j < (of_int (2 * m + 1))\<^sup>2 / (4::real)"
    using assms(4) by simp
  also have "\<dots> = (of_int m + 1 / 2)\<^sup>2"
    by (simp add: power2_eq_square field_simps)
  finally have hi: "sqrt (n * 4 ^ j) < of_int m + 1 / 2"
    using assms(1) by (intro real_less_lsqrt) simp_all
  from lo hi show ?thesis
    unfolding s by linarith
qed

lemma sqrt3_double: "mathSqrt (Finite 3) = Finite (7800463371553962 / 2 ^ 52)"
proof -
  have "\<bar>sqrt 3 * 2 ^ 52 - of_int 7800463371553962\<bar> < 1 / 2"
    by (rule sqrt_eval) simp_all
  then have "toNumber (sqrt 3) = Finite (of_int 7800463371553962 / 2 ^ 52)"
    by (intro toNumber_eval) simp_all
  then show ?thesis by simp
qed

lemma sqrt3_squared_double:
  "jsMul (Finite (7800463371553962 / 2 ^ 52)) (Finite (7800463371553962 / 2 ^ 52)) =
     Finite (6755399441055743 / 2 ^ 51)"
proof -
  have "toNumber (7800463371553962 / 2 ^ 52 * (7800463371553962 / 2 ^ 52)) =
      Finite (of_int 6755399441055743 / 2 ^ 51)"
    by (rule toNumber_eval) simp_all
  then show ?thesis by simp
qed

lemma three_by_product_double:
  "jsDiv (Finite 3) (Finite (6755399441055743 / 2 ^ 51)) = Finite (1 + 1 / 2 ^ 52)"
proof -
  have "toNumber (3 / (6755399441055743 / 2 ^ 51)) =
      Finite (of_int 4503599627370497 / 2 ^ 52)"
    by (rule toNumber_eval) simp_all
  then show ?thesis by simp
qed


section \<open>The similarity of equal maps\<close>

lemma cosineSums_exact:
  fixes freqA freqB :: "nat jsobject"
  defines "ks \<equiv> newSet (objectKeys freqA @ objectKeys freqB)"
  assumes "(\<Sum>k\<leftarrow>ks. countOf freqA k * countOf freqB k) < 2 ^ 53"
    and "(\<Sum>k\<leftarrow>ks. countOf freqA k * countOf freqA k) < 2 ^ 53"
    and "(\<Sum>k\<leftarrow>ks. countOf freqB k * countOf freqB k) < 2 ^ 53"
  shows "cosineSums freqA freqB =
     (Finite (real (\<Sum>k\<leftarrow>ks. countOf freqA k * countOf freqB k)),
      Finite (real (\<Sum>k\<leftarrow>ks. countOf freqA k * countOf freqA k)),
      Finite (real (\<Sum>k\<leftarrow>ks. countOf freqB k * countOf freqB k)))"
  using cosineLoop_exact [where d = 0 and na = 0 and nb = 0 and ks = ks
      and freqA = freqA and freqB = freqB] assms(2-4)
  by (simp add: cosineSums_def ks_def)

lemmas runCosine = objectKeys_def objectEntries_def isArrayIndex_def isAllDigits_def
  isDigit_def newSet_def setAdd_def countOf_def objGet_def js_def

lemma three_tokens_sums:
  "cosineSums [(js ''python'', 1), (js ''aws'', 1), (js ''docker'', 1)]
              [(js ''python'', 1), (js ''aws'', 1), (js ''docker'', 1)] =
     (Finite 3, Finite 3, Finite 3)"
proof -
  have "cosineSums [(js ''python'', 1), (js ''aws'', 1), (js ''docker'', 1)]
              [(js ''python'', 1), (js ''aws'', 1), (js ''docker'', 1)] =
     (Finite (real 3), Finite (real 3), Finite (real 3))"
    by (subst cosineSums_exact) (simp_all add: runCosine)
  then show ?thesis by simp
qed

lemma three_tokens_frequency:
  "buildFrequency (tokenize uc (js ''python aws docker'') 2) =
     [(js ''python'', 1), (js ''aws'', 1), (js ''docker'', 1)]"
  by (simp add: runTokenizer buildFrequency_def countOf_def objGet_def)

text \<open>
  C5: for every pair of frequency maps \<open>A\<close> and \<open>B\<close>, \<open>cosineSimilarity(A, B)\<close> lies in
  [0, 1], is 0 whenever either map has zero norm, and never divides by zero. The code
  breaks the upper bound: for two equal maps of three tokens with count 1, which the
  handler builds from the text \<open>python aws docker\<close> sent as both inputs, the double
  \<open>Math.sqrt(3)\<close> squared rounds to \<open>3 - 2^-51\<close>, and 3 divided by it rounds to
  \<open>1 + 2^-52\<close>, above 1.
\<close>

theorem cosineSimilarity_exceeds_one:
  "cosineSimilarity [(js ''python'', 1), (js ''aws'', 1), (js ''docker'', 1)]
                    [(js ''python'', 1), (js ''aws'', 1), (js ''docker'', 1)] =
     Finite (1 + 1 / 2 ^ 52)
   \<and> semantic_similarity
        (computeMatch uc (js ''python aws docker'') (js ''python aws docker'')) =
     Finite (1 + 1 / 2 ^ 52)
   \<and> (1::real) < 1 + 1 / 2 ^ 52"
proof -
  have c: "cosineSimilarity [(js ''python'', 1), (js ''aws'', 1), (js ''docker'', 1)]
                    [(js ''python'', 1), (js ''aws'', 1), (js ''docker'', 1)] =
     Finite (1 + 1 / 2 ^ 52)"
    unfolding cosineSimilarity_def three_tokens_sums prod.case sqrt3_double
      sqrt3_squared_double three_by_product_double
    by simp
  have "semantic_similarity
        (computeMatch uc (js ''python aws docker'') (js ''python aws docker'')) =
      cosineSimilarity (buildFrequency (tokenize uc (js ''python aws docker'') 2))
        (buildFrequency (tokenize uc (js ''python aws docker'') 2))"
    by (simp add: computeMatch_def Let_def)
  with c show ?thesis
    unfolding three_tokens_frequency by simp
qed

section \<open>The overlap percentage\<close>

lemma overlapPct_matchKeywords:
  "overlapPct (matchKeywords jd resume) =
     (if length (newSet jd) = 0 then Finite 0
      else jsMul (jsDiv (numberOfNat (length (matched (matchKeywords jd resume))))
                        (numberOfNat (length (newSet jd))))
                 (Finite 100))"
  by (simp add: matchKeywords_def Let_def matchLoop_filter)

lemma toNumber_bounded:
  assumes "0 \<le> x" and "x \<le> 2 ^ 53"
  shows "toNumber x = Finite (roundToDouble x)"
proof -
  have "(2::real) ^ 53 \<le> 2 ^ 1023"
    by (intro power_increasing) simp_all
  with assms(2) have "x \<le> 2 ^ 1023" by (rule order_trans)
  with assms(1) show ?thesis by (rule toNumber_finite)
qed

lemma roundToDouble_one: "roundToDouble 1 = 1"
  using roundToDouble_dyadic [of 1 0] by simp

lemma roundToDouble_hundred: "roundToDouble 100 = 100"
  using roundToDouble_dyadic [of 100 0] by simp

lemma percentage:
  fixes m n :: nat
  assumes "m \<le> n" and "0 < n" and "n < 2 ^ 53"
  defines "p \<equiv> roundToDouble (roundToDouble (real m / real n) * 100)"
  shows "jsMul (jsDiv (numberOfNat m) (numberOfNat n)) (Finite 100) = Finite p"
    and "0 \<le> p" and "p \<le> 100"
    and "\<bar>p - 100 * real m / real n\<bar> \<le> 1 / 2 ^ 45"
    and "m = n \<Longrightarrow> p = 100"
    and "m = 0 \<Longrightarrow> p = 0"
proof -
  let ?x = "real m / real n"
  let ?q = "roundToDouble ?x"
  have x: "0 \<le> ?x" "?x \<le> 1"
    using assms(1,2) by simp_all
  have q0: "0 \<le> ?q"
    using x(1) by (rule roundToDouble_nonneg)
  have q1: "?q \<le> 1"
    using roundToDouble_mono [OF x] by (simp add: roundToDouble_one)
  have mn: "m < 2 ^ 53" using assms(1,3) by simp
  have "toNumber ?x = Finite ?q"
    using x by (intro toNumber_bounded) simp_all
  then have div: "jsDiv (numberOfNat m) (numberOfNat n) = Finite ?q"
    using assms(2) by (simp add: numberOfNat_exact [OF mn] numberOfNat_exact [OF assms(3)])
  have y: "0 \<le> ?q * 100" "?q * 100 \<le> 100"
    using q0 q1 by simp_all
  have "toNumber (?q * 100) = Finite (roundToDouble (?q * 100))"
    using y by (intro toNumber_bounded) simp_all
  then show "jsMul (jsDiv (numberOfNat m) (numberOfNat n)) (Finite 100) = Finite p"
    unfolding div p_def by simp
  show "0 \<le> p"
    unfolding p_def using y(1) by (rule roundToDouble_nonneg)
  show "p \<le> 100"
    unfolding p_def using roundToDouble_mono [OF y] by (simp add: roundToDouble_hundred)
  have e1: "\<bar>?q - ?x\<bar> \<le> 2 powi (0 - 53)"
    using x by (intro roundToDouble_error_bound) simp_all
  have e2: "\<bar>p - ?q * 100\<bar> \<le> 2 powi (7 - 53)"
    unfolding p_def using y by (intro roundToDouble_error_bound) simp_all
  have c: "2 powi (7 - 53) + 100 * 2 powi (0 - 53) \<le> (1::real) / 2 ^ 45"
    by simp
  have "\<bar>p - 100 * ?x\<bar> \<le> 1 / 2 ^ 45"
    using e1 e2 c unfolding abs_le_iff by linarith
  then show "\<bar>p - 100 * real m / real n\<bar> \<le> 1 / 2 ^ 45"
    by simp
  show "p = 100" if "m = n"
    using that assms(2) by (simp add: p_def roundToDouble_one roundToDouble_hundred)
  show "p = 0" if "m = 0"
    using that by (simp add: p_def roundToDouble_zero)
qed


text \<open>
  C6, as amended: for every pair of keyword lists, \<open>matchKeywords\<close> returns \<open>matched\<close> and
  \<open>missing\<close> whose union, as sets, is the set of distinct jd keywords and which are
  disjoint (each also lists no keyword twice). \<open>overlapPct\<close> is 0 when the jd set is
  empty. Otherwise, for a jd list of fewer than \<open>2^32\<close> entries (the longest array), it is
  the double that \<open>(|matched| / |jdSet|) * 100\<close> evaluates to, the quotient and the
  product each rounded to nearest: it lies in [0, 100], is within \<open>2^-45\<close> of
  \<open>100 * |matched| / |jdSet|\<close>, is exactly 100 when nothing is missing and exactly 0 when
  nothing is matched. As stated the claim fails: with 7 of 25 keywords matched the code
  returns \<open>28 + 2^-48\<close>, not 28.
\<close>

theorem matchKeywords_partition:
  fixes jd resume :: "jsstring list"
  defines "r \<equiv> matchKeywords jd resume"
  shows "set (matched r) \<union> set (missing r) = set jd
    \<and> set (matched r) \<inter> set (missing r) = {}
    \<and> distinct (matched r) \<and> distinct (missing r)
    \<and> (set jd = {} \<longrightarrow> overlapPct r = Finite 0)
    \<and> (set jd \<noteq> {} \<and> length jd < 2 ^ 32 \<longrightarrow>
          (\<exists>p. overlapPct r = Finite p
             \<and> p = roundToDouble
                   (roundToDouble (real (card (set (matched r))) / real (card (set jd))) * 100)
             \<and> 0 \<le> p \<and> p \<le> 100
             \<and> \<bar>p - 100 * real (card (set (matched r))) / real (card (set jd))\<bar> \<le> 1 / 2 ^ 45
             \<and> (set (missing r) = {} \<longrightarrow> p = 100)
             \<and> (set (matched r) = {} \<longrightarrow> p = 0)))"
proof -
  have d: "distinct (matched r)" "distinct (missing r)"
    by (simp_all add: r_def matched_matchKeywords missing_matchKeywords distinct_newSet)
  have u: "set (matched r) \<union> set (missing r) = set jd"
    by (auto simp: r_def matched_matchKeywords missing_matchKeywords set_newSet)
  have i: "set (matched r) \<inter> set (missing r) = {}"
    by (auto simp: r_def matched_matchKeywords missing_matchKeywords)
  have l: "length (newSet jd) = card (set jd)"
    using distinct_card [OF distinct_newSet [of jd]] by (simp add: set_newSet)
  have c: "length (matched r) = card (set (matched r))"
    using distinct_card [OF d(1)] by simp
  have z: "set jd = {} \<longrightarrow> overlapPct r = Finite 0"
    unfolding r_def overlapPct_matchKeywords l by simp
  have p: "\<exists>p. overlapPct r = Finite p
             \<and> p = roundToDouble
                   (roundToDouble (real (card (set (matched r))) / real (card (set jd))) * 100)
             \<and> 0 \<le> p \<and> p \<le> 100
             \<and> \<bar>p - 100 * real (card (set (matched r))) / real (card (set jd))\<bar> \<le> 1 / 2 ^ 45
             \<and> (set (missing r) = {} \<longrightarrow> p = 100)
             \<and> (set (matched r) = {} \<longrightarrow> p = 0)"
    if ne: "set jd \<noteq> {}" and len: "length jd < 2 ^ 32"
  proof -
    let ?m = "card (set (matched r))" and ?n = "card (set jd)"
    have mn: "?m \<le> ?n"
      using u by (metis List.finite_set Un_upper1 card_mono)
    have n0: "0 < ?n"
      using ne by (simp add: card_gt_0_iff)
    have "?n \<le> length jd" by (rule card_length)
    with len have "?n < 2 ^ 32" by simp
    also have "(2::nat) ^ 32 < 2 ^ 53" by simp
    finally have n53: "?n < 2 ^ 53" .
    note pc = percentage [OF mn n0 n53]
    have o: "overlapPct r =
        Finite (roundToDouble (roundToDouble (real ?m / real ?n) * 100))"
      using pc(1) n0 ne unfolding r_def overlapPct_matchKeywords l
      by (simp add: c [unfolded r_def])
    have full: "?m = ?n" if "set (missing r) = {}"
      using that u by simp
    have none: "?m = 0" if "set (matched r) = {}"
      using that by simp
    show ?thesis
      using o pc(2,3,4) pc(5) [OF full] pc(6) [OF none] by blast
  qed
  from d u i z p show ?thesis by blast
qed


lemma roundToDouble_half: "roundToDouble (1 / 2) = 1 / 2"
  using roundToDouble_dyadic [of 1 "- 1"] by simp

lemma roundToDouble_fifty: "roundToDouble 50 = 50"
  using roundToDouble_dyadic [of 50 0] by simp

theorem matchKeywords_partition_witness:
  "set [js ''sql'', js ''aws'', js ''sql''] \<noteq> {}
   \<and> length [js ''sql'', js ''aws'', js ''sql''] < 2 ^ 32
   \<and> overlapPct (matchKeywords [js ''sql'', js ''aws'', js ''sql''] [js ''aws'']) = Finite 50
   \<and> set ([]::jsstring list) = {} \<and> overlapPct (matchKeywords [] [js ''aws'']) = Finite 0"
proof -
  have m: "matched (matchKeywords [js ''sql'', js ''aws'', js ''sql''] [js ''aws'']) = [js ''aws'']"
    by (simp add: matched_matchKeywords newSet_def setAdd_def js_def)
  have c: "card (set [js ''sql'', js ''aws'', js ''sql'']) = 2"
    by (simp add: js_def card_insert_if)
  have "overlapPct (matchKeywords [js ''sql'', js ''aws'', js ''sql''] [js ''aws'']) = Finite 50"
    using matchKeywords_partition [of "[js ''sql'', js ''aws'', js ''sql'']" "[js ''aws'']"]
    unfolding m c
    by (auto simp: roundToDouble_half roundToDouble_fifty)
  moreover have "overlapPct (matchKeywords [] [js ''aws'']) = Finite 0"
    using matchKeywords_partition [of "[]" "[js ''aws'']"] by simp
  ultimately show ?thesis by simp
qed

lemma seven_by_25_double: "jsDiv (Finite 7) (Finite 25) = Finite (5044031582654956 / 2 ^ 54)"
proof -
  have "toNumber (7 / 25) = Finite (of_int 5044031582654956 / 2 ^ 54)"
    by (rule toNumber_eval) simp_all
  then show ?thesis by simp
qed

lemma times_100_double:
  "jsMul (Finite (5044031582654956 / 2 ^ 54)) (Finite 100) = Finite (28 + 1 / 2 ^ 48)"
proof -
  have "toNumber (5044031582654956 / 2 ^ 54 * 100) = Finite (of_int 7881299347898369 / 2 ^ 48)"
    by (rule toNumber_eval) simp_all
  then show ?thesis by simp
qed

theorem matchKeywords_partition_counterexample:
  "overlapPct (matchKeywords twentyFiveKeywords sevenKeywords) = Finite (28 + 1 / 2 ^ 48)
   \<and> card (set (matched (matchKeywords twentyFiveKeywords sevenKeywords))) = 7
   \<and> card (set twentyFiveKeywords) = 25
   \<and> (28 + 1 / 2 ^ 48 :: real) \<noteq> 100 * real 7 / real 25"
proof -
  have j: "newSet twentyFiveKeywords = twentyFiveKeywords"
    by (simp add: twentyFiveKeywords_def newSet_def setAdd_def js_def)
  have m: "matched (matchKeywords twentyFiveKeywords sevenKeywords) = sevenKeywords"
    unfolding matched_matchKeywords j
    by (simp add: twentyFiveKeywords_def sevenKeywords_def js_def)
  have l: "length twentyFiveKeywords = 25" "length sevenKeywords = 7"
    by (simp_all add: twentyFiveKeywords_def sevenKeywords_def js_def)
  have d: "distinct twentyFiveKeywords" "distinct sevenKeywords"
    by (simp_all add: twentyFiveKeywords_def sevenKeywords_def js_def)
  have n: "numberOfNat 7 = Finite 7" "numberOfNat 25 = Finite 25"
    using numberOfNat_exact [of 7] numberOfNat_exact [of 25] by simp_all
  have o: "overlapPct (matchKeywords twentyFiveKeywords sevenKeywords) = Finite (28 + 1 / 2 ^ 48)"
    unfolding overlapPct_matchKeywords m j l n seven_by_25_double times_100_double by simp
  have c: "card (set sevenKeywords) = 7" "card (set twentyFiveKeywords) = 25"
    using distinct_card [OF d(1)] distinct_card [OF d(2)] l by simp_all
  show ?thesis
    using o c unfolding m by simp
qed

section \<open>Bounds on the rounded similarity and score\<close>

lemma toNumber_bounded64:
  assumes "0 \<le> x" and "x \<le> 2 ^ 64"
  shows "toNumber x = Finite (roundToDouble x)"
proof -
  have "(2::real) ^ 64 \<le> 2 ^ 1023"
    by (intro power_increasing) simp_all
  with assms(2) have "x \<le> 2 ^ 1023" by (rule order_trans)
  with assms(1) show ?thesis by (rule toNumber_finite)
qed

lemma roundToDouble_ge_one: "1 \<le> x \<Longrightarrow> 1 \<le> roundToDouble x"
  using roundToDouble_mono [of 1 x] by (simp add: roundToDouble_one)

lemma roundToDouble_lower:
  assumes "1 \<le> x"
  shows "x * (1 - 1 / 2 ^ 53) \<le> roundToDouble x"
proof -
  have "(2::real) powi (- 1022) \<le> 1"
    by (simp add: power_int_minus inverse_eq_divide)
  with assms have "2 powi (- 1022) \<le> \<bar>x\<bar>" by linarith
  then have "\<bar>roundToDouble x - x\<bar> \<le> \<bar>x\<bar> / 2 ^ 53"
    by (rule roundToDouble_relative)
  with assms have "x - x / 2 ^ 53 \<le> roundToDouble x" by linarith
  moreover have "x * (1 - 1 / 2 ^ 53) = x - x / 2 ^ 53"
    by (simp add: right_diff_distrib)
  ultimately show ?thesis by simp
qed

lemma roundToDouble_upper:
  assumes "1 \<le> x"
  shows "roundToDouble x \<le> x * (1 + 1 / 2 ^ 53)"
proof -
  have "(2::real) powi (- 1022) \<le> 1"
    by (simp add: power_int_minus inverse_eq_divide)
  with assms have "2 powi (- 1022) \<le> \<bar>x\<bar>" by linarith
  then have "\<bar>roundToDouble x - x\<bar> \<le> \<bar>x\<bar> / 2 ^ 53"
    by (rule roundToDouble_relative)
  with assms have "roundToDouble x \<le> x + x / 2 ^ 53" by linarith
  moreover have "x * (1 + 1 / 2 ^ 53) = x + x / 2 ^ 53"
    by (simp add: distrib_left)
  ultimately show ?thesis by simp
qed

lemma sqrt_bounds:
  assumes "1 \<le> a" and "a \<le> 2 ^ 53"
  shows "1 \<le> sqrt a" and "sqrt a \<le> 2 ^ 27"
proof -
  show "1 \<le> sqrt a" using assms(1) by simp
  have "a \<le> (2 ^ 27)\<^sup>2" using assms(2) by simp
  then have "sqrt a \<le> sqrt ((2 ^ 27)\<^sup>2)" by (rule real_sqrt_le_mono)
  also have "sqrt ((2 ^ 27)\<^sup>2) = (2::real) ^ 27" unfolding real_sqrt_abs by simp
  finally show "sqrt a \<le> 2 ^ 27" .
qed

lemma quotient_parts:
  fixes a b :: real
  assumes "1 \<le> a" and "1 \<le> b" and "a \<le> 2 ^ 53" and "b \<le> 2 ^ 53"
  defines "p \<equiv> roundToDouble (roundToDouble (sqrt a) * roundToDouble (sqrt b))"
  shows "jsMul (mathSqrt (Finite a)) (mathSqrt (Finite b)) = Finite p"
    and "1 \<le> p"
    and "(1 - 1 / 2 ^ 53) ^ 3 * (sqrt a * sqrt b) \<le> p"
    and "p \<le> (1 + 1 / 2 ^ 53) ^ 3 * (sqrt a * sqrt b)"
proof -
  let ?u = "(1::real) / 2 ^ 53"
  let ?sa = "roundToDouble (sqrt a)" and ?sb = "roundToDouble (sqrt b)"
  note ra = sqrt_bounds [OF assms(1,3)] and rb = sqrt_bounds [OF assms(2,4)]
  have sa1: "1 \<le> ?sa" and sb1: "1 \<le> ?sb"
    using ra(1) rb(1) by (simp_all add: roundToDouble_ge_one)
  have sal: "sqrt a * (1 - ?u) \<le> ?sa" and sbl: "sqrt b * (1 - ?u) \<le> ?sb"
    by (rule roundToDouble_lower [OF ra(1)], rule roundToDouble_lower [OF rb(1)])
  have sau: "?sa \<le> sqrt a * (1 + ?u)" and sbu: "?sb \<le> sqrt b * (1 + ?u)"
    by (rule roundToDouble_upper [OF ra(1)], rule roundToDouble_upper [OF rb(1)])
  have sa28: "?sa \<le> 2 ^ 28"
  proof -
    have "sqrt a * (1 + ?u) \<le> 2 ^ 27 * 2"
      using ra by (intro mult_mono) simp_all
    with sau show ?thesis by simp
  qed
  have sb28: "?sb \<le> 2 ^ 28"
  proof -
    have "sqrt b * (1 + ?u) \<le> 2 ^ 27 * 2"
      using rb by (intro mult_mono) simp_all
    with sbu show ?thesis by simp
  qed
  have P1: "1 \<le> ?sa * ?sb"
    using mult_mono [of 1 ?sa 1 ?sb] sa1 sb1 by simp
  have P56: "?sa * ?sb \<le> 2 ^ 64"
  proof -
    have "0 \<le> ?sb" using sb1 by linarith
    with sa28 sb28 have "?sa * ?sb \<le> 2 ^ 28 * 2 ^ 28"
      by (intro mult_mono) simp_all
    also have "\<dots> \<le> (2::real) ^ 64" by simp
    finally show ?thesis .
  qed
  have fa: "mathSqrt (Finite a) = Finite ?sa"
    using assms(1) ra toNumber_bounded64 [of "sqrt a"] by simp
  have fb: "mathSqrt (Finite b) = Finite ?sb"
    using assms(2) rb toNumber_bounded64 [of "sqrt b"] by simp
  show "jsMul (mathSqrt (Finite a)) (mathSqrt (Finite b)) = Finite p"
    unfolding fa fb p_def using P1 P56 toNumber_bounded64 [of "?sa * ?sb"] by simp
  show "1 \<le> p"
    unfolding p_def using P1 by (rule roundToDouble_ge_one)
  have sa0: "0 \<le> ?sa" and sb0: "0 \<le> ?sb" using sa1 sb1 by linarith+
  have qa0: "0 \<le> sqrt a * (1 - ?u)" and qb0: "0 \<le> sqrt b * (1 - ?u)"
    using ra(1) rb(1) by simp_all
  have "(sqrt a * (1 - ?u)) * (sqrt b * (1 - ?u)) \<le> ?sa * ?sb"
    using sal sbl sa0 qb0 by (rule mult_mono)
  then have "(1 - ?u) * ((sqrt a * (1 - ?u)) * (sqrt b * (1 - ?u))) \<le> (1 - ?u) * (?sa * ?sb)"
    by (intro mult_left_mono) simp_all
  also have "\<dots> \<le> p"
    unfolding p_def using roundToDouble_lower [OF P1] by (simp add: mult.commute)
  finally show "(1 - ?u) ^ 3 * (sqrt a * sqrt b) \<le> p"
    by (simp add: power3_eq_cube mult_ac)
  have "p \<le> (?sa * ?sb) * (1 + ?u)"
    unfolding p_def using P1 by (rule roundToDouble_upper)
  also have "?sa * ?sb \<le> (sqrt a * (1 + ?u)) * (sqrt b * (1 + ?u))"
  proof -
    have "0 \<le> sqrt a * (1 + ?u)" using ra(1) by simp
    with sau sbu show ?thesis using sb0 by (rule mult_mono)
  qed
  finally show "p \<le> (1 + ?u) ^ 3 * (sqrt a * sqrt b)"
    by (simp add: power3_eq_cube mult_ac)
qed

lemma round_step:
  fixes n :: nat
  assumes "0 \<le> x" and "x \<le> 2 ^ n" and "n \<le> 53"
  shows "toNumber x = Finite (roundToDouble x)"
    and "0 \<le> roundToDouble x"
    and "roundToDouble x \<le> 2 ^ n"
    and "\<bar>roundToDouble x - x\<bar> \<le> 2 ^ n / 2 ^ 53"
proof -
  have "(2::real) ^ n \<le> 2 ^ 53" using assms(3) by (intro power_increasing) simp_all
  with assms(2) have "x \<le> 2 ^ 53" by linarith
  with assms(1) show "toNumber x = Finite (roundToDouble x)" by (rule toNumber_bounded)
  show "0 \<le> roundToDouble x" using assms(1) by (rule roundToDouble_nonneg)
  have "roundToDouble (of_int 1 * 2 powi int n) = of_int 1 * 2 powi int n"
    by (rule roundToDouble_dyadic) simp_all
  then have fixed: "roundToDouble (2 ^ n) = 2 ^ n" by simp
  show "roundToDouble x \<le> 2 ^ n"
    using roundToDouble_mono [OF assms(1,2)] fixed by simp
  have "\<bar>roundToDouble x - x\<bar> \<le> 2 powi (int n - 53)"
    by (rule roundToDouble_error_bound) (use assms(1,2) in simp_all)
  also have "(2::real) powi (int n - 53) = 2 ^ n / 2 ^ 53"
    by (simp add: power_int_diff)
  finally show "\<bar>roundToDouble x - x\<bar> \<le> 2 ^ n / 2 ^ 53" .
qed

lemma weight_bounds:
  fixes c :: real
  assumes "0 \<le> c" and "c \<le> 1"
  shows "toNumber c = Finite (roundToDouble c)"
    and "0 \<le> roundToDouble c" and "roundToDouble c \<le> 1"
    and "\<bar>roundToDouble c - c\<bar> \<le> 1 / 2 ^ 53"
  using round_step [of c 0] assms by simp_all

lemma product_error:
  fixes a w c t e1 e2 A :: real
  assumes "\<bar>a - t\<bar> \<le> e1" and "\<bar>w - c\<bar> \<le> e2" and "0 \<le> a" and "a \<le> A"
    and "0 \<le> c" and "c \<le> 1"
  shows "\<bar>a * w - t * c\<bar> \<le> A * e2 + e1"
proof -
  have e2: "0 \<le> e2" using assms(2) by linarith
  have "\<bar>a * (w - c)\<bar> = a * \<bar>w - c\<bar>" using assms(3) by (simp add: abs_mult)
  also have "\<dots> \<le> A * e2" using assms(2,3,4) e2 by (intro mult_mono) simp_all
  finally have 1: "\<bar>a * (w - c)\<bar> \<le> A * e2" .
  have "\<bar>c * (a - t)\<bar> = c * \<bar>a - t\<bar>" using assms(5) by (simp add: abs_mult)
  also have "\<dots> \<le> 1 * \<bar>a - t\<bar>" using assms(6) by (intro mult_right_mono) simp_all
  finally have 2: "\<bar>c * (a - t)\<bar> \<le> e1" using assms(1) by simp
  have "a * w - t * c = a * (w - c) + c * (a - t)" by (simp add: algebra_simps)
  with 1 2 show ?thesis by linarith
qed

lemma abs_chain:
  fixes a b c :: real
  shows "\<bar>a - b\<bar> \<le> e1 \<Longrightarrow> \<bar>b - c\<bar> \<le> e2 \<Longrightarrow> e1 + e2 \<le> e \<Longrightarrow> \<bar>a - c\<bar> \<le> e"
  by linarith

lemma abs_sum:
  fixes a b :: real
  shows "\<bar>a - A\<bar> \<le> e1 \<Longrightarrow> \<bar>b - B\<bar> \<le> e2 \<Longrightarrow> \<bar>(a + b) - (A + B)\<bar> \<le> e1 + e2"
  by linarith

lemma abs_scale:
  fixes x :: real
  shows "\<bar>x - F\<bar> \<le> e \<Longrightarrow> \<bar>x * 100 - 100 * F\<bar> \<le> 100 * e"
  by linarith

lemma below_half:
  fixes y :: real
  shows "\<bar>y - t\<bar> \<le> e \<Longrightarrow> t \<le> c + e \<Longrightarrow> 2 * e < h \<Longrightarrow> y < c + h"
  by linarith

lemma floor_error:
  fixes y :: real
  shows "\<bar>y - t\<bar> \<le> e \<Longrightarrow> e \<le> e' \<Longrightarrow> \<bar>of_int \<lfloor>y + 1 / 2\<rfloor> - t\<bar> \<le> 1 / 2 + e'"
  by linarith

lemma score_bounds:
  fixes s p :: real
  assumes "0 \<le> s" and "s \<le> 1 + 1 / 2 ^ 50" and "0 \<le> p" and "p \<le> 100"
  shows "\<exists>k. jsDiv (mathRound (jsMul (jsAdd (jsMul (jsMul (Finite s) (Finite 100)) semanticWeight)
                                           (jsMul (Finite p) keywordWeight))
                                    (Finite 100)))
                 (Finite 100) = Finite (roundToDouble (of_int k / 100))
           \<and> 0 \<le> k \<and> k \<le> 10000
           \<and> \<bar>of_int k - 100 * (s * 100 * (6 / 10) + p * (4 / 10))\<bar> \<le> 1 / 2 + 1 / 2 ^ 32"
proof -
  define w6 where "w6 = roundToDouble (6 / 10)"
  define w4 where "w4 = roundToDouble (4 / 10)"
  define a1 where "a1 = roundToDouble (s * 100)"
  define a2 where "a2 = roundToDouble (a1 * w6)"
  define b1 where "b1 = roundToDouble (p * w4)"
  define x where "x = roundToDouble (a2 + b1)"
  define y where "y = roundToDouble (x * 100)"
  define k where "k = \<lfloor>y + 1 / 2\<rfloor>"
  note W6 = weight_bounds [of "6 / 10", folded w6_def]
  note W4 = weight_bounds [of "4 / 10", folded w4_def]
  have sw: "semanticWeight = Finite w6" unfolding semanticWeight_def using W6(1) by simp
  have kw: "keywordWeight = Finite w4" unfolding keywordWeight_def using W4(1) by simp
  have w6: "0 \<le> w6" "w6 \<le> 1" "\<bar>w6 - 6 / 10\<bar> \<le> 1 / 2 ^ 53" using W6(2-4) by simp_all
  have w4: "0 \<le> w4" "w4 \<le> 1" "\<bar>w4 - 4 / 10\<bar> \<le> 1 / 2 ^ 53" using W4(2-4) by simp_all
  have s100: "0 \<le> s * 100" "s * 100 \<le> 2 ^ 7" using assms(1,2) by simp_all
  note A1 = round_step [OF s100, folded a1_def]
  have a1: "0 \<le> a1" "a1 \<le> 128" "\<bar>a1 - s * 100\<bar> \<le> 1 / 2 ^ 46" using A1(2-4) by simp_all
  have a1w: "0 \<le> a1 * w6" "a1 * w6 \<le> 2 ^ 7"
  proof -
    show "0 \<le> a1 * w6" using a1(1) w6(1) by simp
    have "a1 * w6 \<le> 128 * 1" using a1 w6 by (intro mult_mono) simp_all
    then show "a1 * w6 \<le> 2 ^ 7" by simp
  qed
  note A2 = round_step [OF a1w, folded a2_def]
  have a2: "0 \<le> a2" "a2 \<le> 128" "\<bar>a2 - a1 * w6\<bar> \<le> 1 / 2 ^ 46" using A2(2-4) by simp_all
  have "\<bar>a1 * w6 - s * 100 * (6 / 10)\<bar> \<le> 128 * (1 / 2 ^ 53) + 1 / 2 ^ 46"
    by (rule product_error [OF a1(3) w6(3) a1(1,2)]) simp_all
  with a2(3) have a2e: "\<bar>a2 - s * 100 * (6 / 10)\<bar> \<le> 3 / 2 ^ 46"
    by (rule abs_chain) simp
  have pw: "0 \<le> p * w4" "p * w4 \<le> 2 ^ 7"
  proof -
    show "0 \<le> p * w4" using assms(3) w4(1) by simp
    have "p * w4 \<le> 100 * 1" using assms(3,4) w4 by (intro mult_mono) simp_all
    then show "p * w4 \<le> 2 ^ 7" by simp
  qed
  note B1 = round_step [OF pw, folded b1_def]
  have b1: "0 \<le> b1" "b1 \<le> 128" "\<bar>b1 - p * w4\<bar> \<le> 1 / 2 ^ 46" using B1(2-4) by simp_all
  have pp: "\<bar>p - p\<bar> \<le> 0" by simp
  have "\<bar>p * w4 - p * (4 / 10)\<bar> \<le> 100 * (1 / 2 ^ 53) + 0"
    by (rule product_error [OF pp w4(3) assms(3,4)]) simp_all
  with b1(3) have b1e: "\<bar>b1 - p * (4 / 10)\<bar> \<le> 2 / 2 ^ 46"
    by (rule abs_chain) simp
  have ab: "0 \<le> a2 + b1" "a2 + b1 \<le> 2 ^ 8" using a2(1,2) b1(1,2) by simp_all
  note X = round_step [OF ab, folded x_def]
  have x: "0 \<le> x" "x \<le> 256" "\<bar>x - (a2 + b1)\<bar> \<le> 1 / 2 ^ 45" using X(2-4) by simp_all
  define F where "F = s * 100 * (6 / 10) + p * (4 / 10)"
  have xe: "\<bar>x - F\<bar> \<le> 7 / 2 ^ 46"
    unfolding F_def by (rule abs_chain [OF x(3) abs_sum [OF a2e b1e]]) simp
  have x100: "0 \<le> x * 100" "x * 100 \<le> 2 ^ 15" using x(1,2) by simp_all
  note Y = round_step [OF x100, folded y_def]
  have y: "0 \<le> y" "\<bar>y - x * 100\<bar> \<le> 1 / 2 ^ 38" using Y(2,4) by simp_all
  have ye: "\<bar>y - 100 * F\<bar> \<le> 1 / 2 ^ 33"
    by (rule abs_chain [OF y(2) abs_scale [OF xe]]) simp
  have Fu: "100 * F \<le> 10000 + 1 / 2 ^ 33"
  proof -
    define u :: real where "u = 1 / 2 ^ 50"
    have "s \<le> 1 + u" using assms(2) by (simp add: u_def)
    moreover have "100 * F = 6000 * s + 40 * p" by (simp add: F_def algebra_simps)
    ultimately have "100 * F \<le> 10000 + 6000 * u" using assms(4) by linarith
    moreover have "6000 * u \<le> 1 / 2 ^ 33" by (simp add: u_def)
    ultimately show ?thesis by linarith
  qed
  have yu: "y < 10000 + 1 / 2" by (rule below_half [OF ye Fu]) simp
  have k0: "0 \<le> k" unfolding k_def using y(1) by simp
  have ku: "k \<le> 10000"
  proof -
    have "y + 1 / 2 < of_int (10001::int)" using yu by simp
    then have "\<lfloor>y + 1 / 2\<rfloor> < 10001" by (simp only: floor_less_iff)
    then show ?thesis unfolding k_def by simp
  qed
  have ke: "\<bar>of_int k - 100 * F\<bar> \<le> 1 / 2 + 1 / 2 ^ 32"
    unfolding k_def by (rule floor_error [OF ye]) simp
  have kq: "0 \<le> real_of_int k / 100" "real_of_int k / 100 \<le> 2 ^ 7" using k0 ku by simp_all
  note K = round_step [OF kq]
  have "jsDiv (mathRound (jsMul (jsAdd (jsMul (jsMul (Finite s) (Finite 100)) semanticWeight)
                                           (jsMul (Finite p) keywordWeight))
                                    (Finite 100)))
                 (Finite 100) = Finite (roundToDouble (of_int k / 100))"
    unfolding sw kw
    by (simp add: A1(1) A2(1) B1(1) X(1) Y(1) K(1) a1_def [symmetric] a2_def [symmetric]
        b1_def [symmetric] x_def [symmetric] y_def [symmetric] k_def [symmetric])
  with k0 ku ke show ?thesis unfolding F_def by blast
qed

lemma cauchy_step:
  fixes S A B a b :: real
  assumes "S\<^sup>2 \<le> A * B" and "0 \<le> A" and "0 \<le> B"
  shows "(a * b + S)\<^sup>2 \<le> (a * a + A) * (b * b + B)"
proof -
  let ?m = "A * b\<^sup>2 + B * a\<^sup>2"
  have "4 * S\<^sup>2 \<le> 4 * (A * B)"
    using assms(1) by simp
  then have "4 * S\<^sup>2 * (a * b)\<^sup>2 \<le> 4 * (A * B) * (a * b)\<^sup>2"
    by (rule mult_right_mono) simp
  moreover have "(2 * S * a * b)\<^sup>2 = 4 * S\<^sup>2 * (a * b)\<^sup>2"
    by (simp add: power2_eq_square)
  moreover have "(A * b\<^sup>2 - B * a\<^sup>2)\<^sup>2 = ?m\<^sup>2 - 4 * (A * B) * (a * b)\<^sup>2"
    by (simp add: power2_eq_square algebra_simps)
  moreover have "0 \<le> (A * b\<^sup>2 - B * a\<^sup>2)\<^sup>2"
    by (rule zero_le_power2)
  ultimately have sq: "(2 * S * a * b)\<^sup>2 \<le> ?m\<^sup>2"
    by linarith
  have "0 \<le> ?m"
    using assms(2,3) by (intro add_nonneg_nonneg mult_nonneg_nonneg zero_le_power2)
  with sq have "2 * S * a * b \<le> ?m"
    by (rule power2_le_imp_le)
  moreover have "(a * b + S)\<^sup>2 = (a * b)\<^sup>2 + 2 * S * a * b + S\<^sup>2"
    by (simp add: power2_eq_square algebra_simps)
  moreover have "(a * a + A) * (b * b + B) = (a * b)\<^sup>2 + ?m + A * B"
    by (simp add: power2_eq_square algebra_simps)
  ultimately show ?thesis using assms(1) by linarith
qed

lemma sum_list_squares_nonneg:
  fixes f :: "'a \<Rightarrow> real"
  shows "0 \<le> (\<Sum>k\<leftarrow>ks. f k * f k)"
  by (induction ks) simp_all

lemma cauchy_sum_list:
  fixes f g :: "'a \<Rightarrow> real"
  shows "(\<Sum>k\<leftarrow>ks. f k * g k)\<^sup>2 \<le> (\<Sum>k\<leftarrow>ks. f k * f k) * (\<Sum>k\<leftarrow>ks. g k * g k)"
proof (induction ks)
  case Nil
  then show ?case by simp
next
  case (Cons k ks)
  show ?case
    using cauchy_step [OF Cons sum_list_squares_nonneg sum_list_squares_nonneg, of "f k" "g k"]
    by simp
qed

lemma real_sum_products:
  fixes f g :: "'a \<Rightarrow> nat"
  shows "real (\<Sum>k\<leftarrow>ks. f k * g k) = (\<Sum>k\<leftarrow>ks. real (f k) * real (g k))"
  by (induction ks) simp_all

lemma cauchy_counts:
  fixes f g :: "'a \<Rightarrow> nat"
  shows "(real (\<Sum>k\<leftarrow>ks. f k * g k))\<^sup>2
           \<le> real (\<Sum>k\<leftarrow>ks. f k * f k) * real (\<Sum>k\<leftarrow>ks. g k * g k)"
  unfolding real_sum_products by (rule cauchy_sum_list)

lemma sum_indicator_absent:
  "t \<notin> set ks \<Longrightarrow> (\<Sum>k\<leftarrow>ks. if t = k then 1 else 0) = (0::nat)"
  by (induction ks) auto

lemma sum_indicator:
  "distinct ks \<Longrightarrow> (\<Sum>k\<leftarrow>ks. if t = k then 1 else 0) \<le> (1::nat)"
  by (induction ks) (auto simp: sum_indicator_absent)

lemma sum_count_list:
  assumes "distinct ks"
  shows "(\<Sum>k\<leftarrow>ks. count_list ts k) \<le> length ts"
proof (induction ts)
  case Nil
  then show ?case by simp
next
  case (Cons t ts)
  have "(\<Sum>k\<leftarrow>ks. count_list (t # ts) k)
      = (\<Sum>k\<leftarrow>ks. count_list ts k + (if t = k then 1 else 0))"
    by (rule arg_cong [where f = sum_list]) simp
  also have "\<dots> = (\<Sum>k\<leftarrow>ks. count_list ts k) + (\<Sum>k\<leftarrow>ks. if t = k then 1 else 0)"
    by (rule sum_list_addf)
  finally show ?case
    using Cons sum_indicator [OF assms, of t] by simp
qed

lemma sum_products_le:
  fixes f g :: "'a \<Rightarrow> nat"
  shows "(\<Sum>k\<leftarrow>ks. f k * g k) \<le> (\<Sum>k\<leftarrow>ks. f k) * (\<Sum>k\<leftarrow>ks. g k)"
proof (induction ks)
  case Nil
  then show ?case by simp
next
  case (Cons k ks)
  have "f k * g k + (\<Sum>k\<leftarrow>ks. f k) * (\<Sum>k\<leftarrow>ks. g k)
      \<le> (f k + (\<Sum>k\<leftarrow>ks. f k)) * (g k + (\<Sum>k\<leftarrow>ks. g k))"
    by (simp add: algebra_simps)
  with Cons show ?case by simp
qed

lemma count_products_small:
  assumes "distinct ks" and "length ta < 2 ^ 26" and "length tb < 2 ^ 26"
  shows "(\<Sum>k\<leftarrow>ks. count_list ta k * count_list tb k) < 2 ^ 53"
proof -
  let ?A = "\<Sum>k\<leftarrow>ks. count_list ta k" and ?B = "\<Sum>k\<leftarrow>ks. count_list tb k"
  have A: "?A \<le> 2 ^ 26" using sum_count_list [OF assms(1), of ta] assms(2) by linarith
  have B: "?B \<le> 2 ^ 26" using sum_count_list [OF assms(1), of tb] assms(3) by linarith
  have "(\<Sum>k\<leftarrow>ks. count_list ta k * count_list tb k) \<le> ?A * ?B"
    by (rule sum_products_le)
  also have "\<dots> \<le> 2 ^ 26 * 2 ^ 26" using A B by (rule mult_le_mono)
  also have "\<dots> < (2::nat) ^ 53" by simp
  finally show ?thesis .
qed

lemma roundToDouble_near_one:
  "roundToDouble (1 + 1 / 2 ^ 50) = 1 + 1 / 2 ^ 50"
  "roundToDouble (1 - 1 / 2 ^ 50) = 1 - 1 / 2 ^ 50"
proof -
  have "roundToDouble (of_int (2 ^ 50 + 1) * 2 powi (- 50)) = of_int (2 ^ 50 + 1) * 2 powi (- 50)"
    by (rule roundToDouble_dyadic) simp_all
  moreover have "of_int (2 ^ 50 + 1) * 2 powi (- 50) = (1 + 1 / 2 ^ 50 :: real)"
    by (simp add: power_int_minus field_simps)
  ultimately show "roundToDouble (1 + 1 / 2 ^ 50) = 1 + 1 / 2 ^ 50" by simp
  have "roundToDouble (of_int (2 ^ 50 - 1) * 2 powi (- 50)) = of_int (2 ^ 50 - 1) * 2 powi (- 50)"
    by (rule roundToDouble_dyadic) simp_all
  moreover have "of_int (2 ^ 50 - 1) * 2 powi (- 50) = (1 - 1 / 2 ^ 50 :: real)"
    by (simp add: power_int_minus field_simps)
  ultimately show "roundToDouble (1 - 1 / 2 ^ 50) = 1 - 1 / 2 ^ 50" by simp
qed

lemma quotient_bounds:
  fixes d a b :: real
  assumes "0 \<le> d" and "1 \<le> a" and "1 \<le> b" and "a \<le> 2 ^ 53" and "b \<le> 2 ^ 53"
    and "d\<^sup>2 \<le> a * b"
  shows "\<exists>v. jsDiv (Finite d) (jsMul (mathSqrt (Finite a)) (mathSqrt (Finite b))) = Finite v
           \<and> 0 \<le> v \<and> v \<le> 1 + 1 / 2 ^ 50 \<and> (d = a \<and> a = b \<longrightarrow> 1 - 1 / 2 ^ 50 \<le> v)"
proof -
  define p where "p = roundToDouble (roundToDouble (sqrt a) * roundToDouble (sqrt b))"
  define q where "q = sqrt a * sqrt b"
  note P = quotient_parts [OF assms(2,3,4,5), folded p_def q_def]
  have p0: "0 < p" using P(2) by linarith
  have q1: "1 \<le> q"
    unfolding q_def using mult_mono [of 1 "sqrt a" 1 "sqrt b"] assms(2,3) by simp
  have dq: "d \<le> q"
  proof -
    have "d \<le> sqrt (a * b)" using assms(6) by (rule real_le_rsqrt)
    then show ?thesis by (simp add: q_def real_sqrt_mult)
  qed
  have cu: "(1::real) \<le> (1 + 1 / 2 ^ 50) * (1 - 1 / 2 ^ 53) ^ 3"
    by (simp add: power3_eq_cube)
  have cl: "(1 - 1 / 2 ^ 50) * (1 + 1 / 2 ^ 53) ^ 3 \<le> (1::real)"
    by (simp add: power3_eq_cube)
  have "q * 1 \<le> q * ((1 + 1 / 2 ^ 50) * (1 - 1 / 2 ^ 53) ^ 3)"
    using cu q1 by (intro mult_left_mono) simp_all
  also have "\<dots> = (1 + 1 / 2 ^ 50) * ((1 - 1 / 2 ^ 53) ^ 3 * q)"
    by (simp only: mult_ac)
  also have "\<dots> \<le> (1 + 1 / 2 ^ 50) * p"
    using P(3) by (intro mult_left_mono) simp_all
  finally have "d \<le> (1 + 1 / 2 ^ 50) * p" using dq by simp
  then have up: "d / p \<le> 1 + 1 / 2 ^ 50"
    using p0 by (simp only: pos_divide_le_eq)
  have nonneg: "0 \<le> d / p" using assms(1) p0 by simp
  have "d / p \<le> 2 ^ 53"
  proof -
    have "(1::real) + 1 / 2 ^ 50 \<le> 2 ^ 53" by simp
    with up show ?thesis by linarith
  qed
  with nonneg have fin: "toNumber (d / p) = Finite (roundToDouble (d / p))"
    by (rule toNumber_bounded)
  have eq: "jsDiv (Finite d) (jsMul (mathSqrt (Finite a)) (mathSqrt (Finite b)))
      = Finite (roundToDouble (d / p))"
    unfolding P(1) using p0 fin by simp
  have v0: "0 \<le> roundToDouble (d / p)" using nonneg by (rule roundToDouble_nonneg)
  have vu: "roundToDouble (d / p) \<le> 1 + 1 / 2 ^ 50"
    using roundToDouble_mono [OF nonneg up] by (simp only: roundToDouble_near_one)
  have vl: "1 - 1 / 2 ^ 50 \<le> roundToDouble (d / p)" if "d = a \<and> a = b"
  proof -
    have qa: "q = a" using that assms(2) by (simp add: q_def)
    have "(1 - 1 / 2 ^ 50) * p \<le> (1 - 1 / 2 ^ 50) * ((1 + 1 / 2 ^ 53) ^ 3 * q)"
      using P(4) by (intro mult_left_mono) simp_all
    also have "\<dots> = q * ((1 - 1 / 2 ^ 50) * (1 + 1 / 2 ^ 53) ^ 3)"
      by (simp only: mult_ac)
    also have "\<dots> \<le> q * 1"
      using cl q1 by (intro mult_left_mono) simp_all
    finally have "(1 - 1 / 2 ^ 50) * p \<le> d" using qa that by simp
    then have lo: "1 - 1 / 2 ^ 50 \<le> d / p"
      using p0 by (simp only: pos_le_divide_eq)
    have "(0::real) \<le> 1 - 1 / 2 ^ 50" by simp
    from roundToDouble_mono [OF this lo] show ?thesis
      by (simp only: roundToDouble_near_one)
  qed
  from eq v0 vu vl show ?thesis by blast
qed

lemma cosineSums_buildFrequency:
  assumes "length ta < 2 ^ 26" and "length tb < 2 ^ 26"
  defines "ks \<equiv> newSet (objectKeys (buildFrequency ta) @ objectKeys (buildFrequency tb))"
  shows "cosineSums (buildFrequency ta) (buildFrequency tb) =
     (Finite (real (\<Sum>k\<leftarrow>ks. count_list ta k * count_list tb k)),
      Finite (real (\<Sum>k\<leftarrow>ks. count_list ta k * count_list ta k)),
      Finite (real (\<Sum>k\<leftarrow>ks. count_list tb k * count_list tb k)))"
proof -
  have d: "distinct ks" unfolding ks_def by (rule distinct_newSet)
  show ?thesis
    using cosineSums_exact [of "buildFrequency ta" "buildFrequency tb", folded ks_def]
      count_products_small [OF d assms(1,2)] count_products_small [OF d assms(1,1)]
      count_products_small [OF d assms(2,2)]
    by (simp add: countOf_buildFrequency)
qed

lemma cosineSimilarity_bounds:
  assumes "length ta < 2 ^ 26" and "length tb < 2 ^ 26"
  shows "\<exists>v. cosineSimilarity (buildFrequency ta) (buildFrequency tb) = Finite v
           \<and> 0 \<le> v \<and> v \<le> 1 + 1 / 2 ^ 50"
proof -
  define ks where "ks = newSet (objectKeys (buildFrequency ta) @ objectKeys (buildFrequency tb))"
  define D where "D = (\<Sum>k\<leftarrow>ks. count_list ta k * count_list tb k)"
  define A where "A = (\<Sum>k\<leftarrow>ks. count_list ta k * count_list ta k)"
  define B where "B = (\<Sum>k\<leftarrow>ks. count_list tb k * count_list tb k)"
  have d: "distinct ks" unfolding ks_def by (rule distinct_newSet)
  have sums: "cosineSums (buildFrequency ta) (buildFrequency tb)
      = (Finite (real D), Finite (real A), Finite (real B))"
    unfolding D_def A_def B_def ks_def by (rule cosineSums_buildFrequency [OF assms])
  have A53: "real A \<le> 2 ^ 53"
    using count_products_small [OF d assms(1,1)] unfolding A_def [symmetric]
    by (metis less_imp_le of_nat_le_iff of_nat_numeral of_nat_power)
  have B53: "real B \<le> 2 ^ 53"
    using count_products_small [OF d assms(2,2)] unfolding B_def [symmetric]
    by (metis less_imp_le of_nat_le_iff of_nat_numeral of_nat_power)
  have cs: "(real D)\<^sup>2 \<le> real A * real B"
    unfolding D_def A_def B_def by (rule cauchy_counts)
  show ?thesis
  proof (cases "A = 0 \<or> B = 0")
    case True
    then show ?thesis by (auto simp: cosineSimilarity_def sums)
  next
    case False
    then have "1 \<le> real A" "1 \<le> real B" by simp_all
    from quotient_bounds [OF _ this A53 B53 cs] False show ?thesis
      by (auto simp: cosineSimilarity_def sums)
  qed
qed

lemma cosineSimilarity_self:
  assumes "length ts < 2 ^ 26" and "ts \<noteq> []"
  shows "\<exists>v. cosineSimilarity (buildFrequency ts) (buildFrequency ts) = Finite v
           \<and> 1 - 1 / 2 ^ 50 \<le> v \<and> v \<le> 1 + 1 / 2 ^ 50"
proof -
  define ks where "ks = newSet (objectKeys (buildFrequency ts) @ objectKeys (buildFrequency ts))"
  define A where "A = (\<Sum>k\<leftarrow>ks. count_list ts k * count_list ts k)"
  have d: "distinct ks" unfolding ks_def by (rule distinct_newSet)
  have sums: "cosineSums (buildFrequency ts) (buildFrequency ts)
      = (Finite (real A), Finite (real A), Finite (real A))"
    unfolding A_def ks_def by (rule cosineSums_buildFrequency [OF assms(1,1)])
  have A53: "real A \<le> 2 ^ 53"
    using count_products_small [OF d assms(1,1)] unfolding A_def [symmetric]
    by (metis less_imp_le of_nat_le_iff of_nat_numeral of_nat_power)
  have "set (objectKeys (buildFrequency ts)) = fst ` set (buildFrequency ts)"
    by (simp add: objectKeys_def set_objectEntries)
  also have "\<dots> = set (map fst (buildFrequency ts))" by simp
  also have "\<dots> = set ts" by (simp only: keys_buildFrequency set_newSet)
  finally have "set ks = set ts" by (simp add: ks_def set_newSet)
  then have "hd ts \<in> set ks" using assms(2) by simp
  moreover have "0 < count_list ts (hd ts)"
    using assms(2) by (cases ts) simp_all
  ultimately have "count_list ts (hd ts) * count_list ts (hd ts)
      \<in> set (map (\<lambda>k. count_list ts k * count_list ts k) ks)"
    by (simp add: image_iff) blast
  then have "count_list ts (hd ts) * count_list ts (hd ts) \<le> A"
    unfolding A_def by (rule member_le_sum_list) simp_all
  with \<open>0 < count_list ts (hd ts)\<close> have A1: "1 \<le> real A"
    by (cases "count_list ts (hd ts)") simp_all
  have cs: "(real A)\<^sup>2 \<le> real A * real A" by (simp add: power2_eq_square)
  from quotient_bounds [OF _ A1 A1 A53 A53 cs] A1 show ?thesis
    by (auto simp: cosineSimilarity_def sums)
qed

lemma cosineSimilarity_empty:
  "cosineSimilarity (buildFrequency []) (buildFrequency []) = Finite 0"
  by (simp add: cosineSimilarity_def cosineSums_def buildFrequency_def objectKeys_def
      objectEntries_def newSet_def)

lemma computeMatch_fields:
  fixes uc jd res
  defines "m \<equiv> matchKeywords (extractTopKeywords (tokenize uc jd 2) 200)
                               (extractTopKeywords (tokenize uc res 2) 400)"
  defines "r \<equiv> computeMatch uc jd res"
  shows "semantic_similarity r =
           cosineSimilarity (buildFrequency (tokenize uc jd 2)) (buildFrequency (tokenize uc res 2))"
    and "overlap_pct r = overlapPct m"
    and "missing_skills r = missing m"
    and "skills_matched r = matched m"
    and "match_score r =
           jsDiv (mathRound (jsMul (jsAdd (jsMul (jsMul (semantic_similarity r) (Finite 100))
                                                 semanticWeight)
                                          (jsMul (overlap_pct r) keywordWeight))
                                   (Finite 100)))
                 (Finite 100)"
    and "feedback r = feedbackFor (match_score r) (overlap_pct r) (missing_skills r)"
  by (simp_all add: r_def m_def computeMatch_def Let_def)

lemma overlapPct_range:
  assumes "length jd < 2 ^ 53"
  shows "\<exists>p. overlapPct (matchKeywords jd resume) = Finite p \<and> 0 \<le> p \<and> p \<le> 100"
proof (cases "length (newSet jd) = 0")
  case True
  then show ?thesis by (simp add: overlapPct_matchKeywords)
next
  case False
  have mn: "length (matched (matchKeywords jd resume)) \<le> length (newSet jd)"
    by (simp add: matched_matchKeywords)
  have "length (newSet jd) = card (set jd)"
    using distinct_card [OF distinct_newSet [of jd]] by (simp add: set_newSet)
  also have "\<dots> \<le> length jd" by (rule card_length)
  finally have n: "length (newSet jd) < 2 ^ 53" using assms by linarith
  from False have n0: "0 < length (newSet jd)" by simp
  note pc = percentage [OF mn n0 n]
  show ?thesis
    unfolding overlapPct_matchKeywords using False pc(1,2,3) by simp
qed

lemma extractTopKeywords_short:
  "topK \<le> 400 \<Longrightarrow> length (extractTopKeywords tokens topK) < 2 ^ 53"
proof -
  assume "topK \<le> 400"
  then have "length (extractTopKeywords tokens topK) \<le> 400"
    by (simp add: length_extractTopKeywords)
  also have "(400::nat) < 2 ^ 53" by simp
  finally show ?thesis .
qed

lemma buildFrequency_empty: "buildFrequency [] = []"
  by (simp add: buildFrequency_def)

lemma extractTopKeywords_nonempty:
  assumes "tokens \<noteq> []" and "0 < topK"
  shows "extractTopKeywords tokens topK \<noteq> []"
proof -
  from assms(1) have "0 < card (set tokens)"
    by (simp add: card_gt_0_iff)
  with assms(2) have "0 < length (extractTopKeywords tokens topK)"
    by (simp add: length_extractTopKeywords)
  then show ?thesis by simp
qed

lemma extractTopKeywords_mono:
  "k \<le> n \<Longrightarrow> set (extractTopKeywords tokens k) \<subseteq> set (extractTopKeywords tokens n)"
  unfolding extractTopKeywords_alt set_map
  by (intro image_mono set_take_subset_set_take)

lemma matchKeywords_all_present:
  assumes "set jd \<subseteq> set resume" and "jd \<noteq> []" and "length jd < 2 ^ 53"
  shows "missing (matchKeywords jd resume) = []"
    and "matched (matchKeywords jd resume) = newSet jd"
    and "overlapPct (matchKeywords jd resume) = Finite 100"
proof -
  show 1: "missing (matchKeywords jd resume) = []"
    using assms(1) by (auto simp: missing_matchKeywords set_newSet filter_empty_conv)
  show 2: "matched (matchKeywords jd resume) = newSet jd"
    using assms(1) by (auto simp: matched_matchKeywords set_newSet filter_id_conv)
  from assms(2) have ne: "newSet jd \<noteq> []"
    using set_newSet [of jd] by (metis set_empty)
  then have n0: "0 < length (newSet jd)" by simp
  have "length (newSet jd) = card (set jd)"
    using distinct_card [OF distinct_newSet [of jd]] by (simp add: set_newSet)
  also have "\<dots> \<le> length jd" by (rule card_length)
  finally have n: "length (newSet jd) < 2 ^ 53" using assms(3) by linarith
  note pc = percentage [OF le_refl n0 n]
  show "overlapPct (matchKeywords jd resume) = Finite 100"
    unfolding overlapPct_matchKeywords 2 using ne pc(1) pc(5) by simp
qed

lemma roundHalfAwayFromZero_nonneg:
  "0 \<le> t \<Longrightarrow> roundHalfAwayFromZero t = of_int \<lfloor>t + 1 / 2\<rfloor>"
  by (cases "t = 0") (simp_all add: roundHalfAwayFromZero_def)

lemma nearest_integer:
  fixes t e :: real and k :: int
  assumes "\<bar>of_int k - t\<bar> \<le> 1 / 2 + e" and "e < \<bar>t - of_int \<lfloor>t\<rfloor> - 1 / 2\<bar>"
  shows "k = \<lfloor>t + 1 / 2\<rfloor>"
proof -
  have f: "of_int \<lfloor>t\<rfloor> \<le> t" "t < of_int \<lfloor>t\<rfloor> + 1" by linarith+
  show ?thesis
  proof (cases "t - of_int \<lfloor>t\<rfloor> < 1 / 2")
    case True
    with assms f have "of_int \<lfloor>t\<rfloor> - 1 < (of_int k :: real)" "(of_int k :: real) < of_int \<lfloor>t\<rfloor> + 1"
      by linarith+
    then have "\<lfloor>t\<rfloor> - 1 < k" "k < \<lfloor>t\<rfloor> + 1" by linarith+
    then have "k = \<lfloor>t\<rfloor>" by simp
    moreover have "\<lfloor>t + 1 / 2\<rfloor> = \<lfloor>t\<rfloor>" using True f by linarith
    ultimately show ?thesis by simp
  next
    case False
    with assms f have "of_int \<lfloor>t\<rfloor> < (of_int k :: real)" "(of_int k :: real) < of_int \<lfloor>t\<rfloor> + 2"
      by linarith+
    then have "\<lfloor>t\<rfloor> < k" "k < \<lfloor>t\<rfloor> + 2" by linarith+
    then have "k = \<lfloor>t\<rfloor> + 1" by simp
    moreover have "\<lfloor>t + 1 / 2\<rfloor> = \<lfloor>t\<rfloor> + 1" using False f by linarith
    ultimately show ?thesis by simp
  qed
qed

lemma hundredth_range:
  fixes k :: int
  assumes "0 \<le> k" and "k \<le> 10000"
  shows "0 \<le> roundToDouble (of_int k / 100)" and "roundToDouble (of_int k / 100) \<le> 100"
proof -
  have q: "0 \<le> real_of_int k / 100" "real_of_int k / 100 \<le> 100" using assms by simp_all
  show "0 \<le> roundToDouble (of_int k / 100)" using q(1) by (rule roundToDouble_nonneg)
  show "roundToDouble (of_int k / 100) \<le> 100"
    using roundToDouble_mono [OF q] by (simp only: roundToDouble_hundred)
qed

section \<open>Identical texts\<close>

lemma computeMatch_no_tokens:
  fixes uc :: casing and s :: jsstring
  assumes e: "tokenize uc s 2 = []"
  defines "r \<equiv> computeMatch uc s s"
  shows "semantic_similarity r = Finite 0" and "overlap_pct r = Finite 0"
    and "missing_skills r = []" and "match_score r = Finite 0"
    and "hd (feedback r) = msgLow"
proof -
  show sem: "semantic_similarity r = Finite 0"
    unfolding r_def computeMatch_fields(1) e by (rule cosineSimilarity_empty)
  have top: "extractTopKeywords [] 200 = []"
    by (simp add: extractTopKeywords_def buildFrequency_def objectEntries_def)
  show ovl: "overlap_pct r = Finite 0"
    unfolding r_def computeMatch_fields(2) e top
    by (simp add: overlapPct_matchKeywords newSet_def)
  show "missing_skills r = []"
    unfolding r_def computeMatch_fields(3) e top
    by (simp add: missing_matchKeywords newSet_def)
  have z: "toNumber 0 = Finite 0" using toNumber_bounded [of 0] by (simp add: roundToDouble_zero)
  have w: "semanticWeight = Finite (roundToDouble (6 / 10))"
      "keywordWeight = Finite (roundToDouble (4 / 10))"
    unfolding semanticWeight_def keywordWeight_def
    using weight_bounds(1) [of "6 / 10"] weight_bounds(1) [of "4 / 10"] by simp_all
  show score: "match_score r = Finite 0"
    unfolding r_def
    by (subst computeMatch_fields(5)) (simp add: sem [unfolded r_def] ovl [unfolded r_def] w z)
  show "hd (feedback r) = msgLow"
    unfolding r_def
    by (subst computeMatch_fields(6))
      (simp add: score [unfolded r_def] feedbackFor_def generateFeedback_def Let_def)
qed

lemma python_and_aws_tokens:
  "tokenize asciiCasing (js ''Python and AWS'') 2 = [js ''python'', js ''and'', js ''aws'']"
  by (simp add: runTokenizer)

lemma python_and_aws_similarity:
  "semantic_similarity (computeMatch asciiCasing (js ''Python and AWS'') (js ''Python and AWS''))
     = Finite (1 + 1 / 2 ^ 52)"
proof -
  have f: "buildFrequency [js ''python'', js ''and'', js ''aws''] =
      [(js ''python'', 1), (js ''and'', 1), (js ''aws'', 1)]"
    by (simp add: buildFrequency_def countOf_def objGet_def js_def)
  have "cosineSums [(js ''python'', 1), (js ''and'', 1), (js ''aws'', 1)]
              [(js ''python'', 1), (js ''and'', 1), (js ''aws'', 1)] =
     (Finite (real 3), Finite (real 3), Finite (real 3))"
    by (subst cosineSums_exact) (simp_all add: runCosine)
  then have c: "cosineSums [(js ''python'', 1), (js ''and'', 1), (js ''aws'', 1)]
              [(js ''python'', 1), (js ''and'', 1), (js ''aws'', 1)] =
     (Finite 3, Finite 3, Finite 3)" by simp
  show ?thesis
    unfolding computeMatch_fields(1) python_and_aws_tokens f cosineSimilarity_def c prod.case
      sqrt3_double sqrt3_squared_double three_by_product_double
    by simp
qed

text \<open>
  C2, as amended: for every string \<open>s\<close> used as both \<open>jd_text\<close> and \<open>resume_text\<close> from
  which the tokeniser keeps at least one token and fewer than \<open>2^26\<close> tokens, the response
  has a \<open>semantic_similarity\<close> within \<open>2^-50\<close> of 1, \<open>overlap_pct = 100\<close>,
  \<open>missing_skills = []\<close>, the excellent-fit message first and \<open>match_score = 100\<close>. When the
  tokeniser keeps no token, the guard on the zero norm and the guard on the empty jd set
  make both figures and the score 0, and the first message is the low-fit one. The claim
  as stated fails twice: the non-empty string \<open>a\<close> leaves no token, and for
  \<open>Python and AWS\<close> the similarity is \<open>1 + 2^-52\<close>, not 1.
\<close>

theorem identical_texts:
  fixes uc :: casing and s :: jsstring
  assumes "length (tokenize uc s 2) < 2 ^ 26"
  defines "r \<equiv> computeMatch uc s s"
  shows "(tokenize uc s 2 \<noteq> [] \<longrightarrow>
            (\<exists>v. semantic_similarity r = Finite v \<and> \<bar>v - 1\<bar> \<le> 1 / 2 ^ 50)
            \<and> overlap_pct r = Finite 100 \<and> missing_skills r = []
            \<and> hd (feedback r) = msgExcellent \<and> match_score r = Finite 100)
    \<and> (tokenize uc s 2 = [] \<longrightarrow>
            semantic_similarity r = Finite 0 \<and> overlap_pct r = Finite 0 \<and> missing_skills r = []
            \<and> hd (feedback r) = msgLow \<and> match_score r = Finite 0)"
proof (intro conjI impI)
  assume ne: "tokenize uc s 2 \<noteq> []"
  let ?jd = "extractTopKeywords (tokenize uc s 2) 200"
  let ?res = "extractTopKeywords (tokenize uc s 2) 400"
  have sub: "set ?jd \<subseteq> set ?res" by (rule extractTopKeywords_mono) simp
  have jd: "?jd \<noteq> []" using ne by (rule extractTopKeywords_nonempty) simp
  have len: "length ?jd < 2 ^ 53" by (rule extractTopKeywords_short) simp
  obtain v where v: "semantic_similarity r = Finite v" "1 - 1 / 2 ^ 50 \<le> v" "v \<le> 1 + 1 / 2 ^ 50"
    unfolding r_def computeMatch_fields(1) using cosineSimilarity_self [OF assms(1) ne] by blast
  have "\<bar>v - 1\<bar> \<le> 1 / 2 ^ 50" using v(2,3) by linarith
  with v(1) show "\<exists>v. semantic_similarity r = Finite v \<and> \<bar>v - 1\<bar> \<le> 1 / 2 ^ 50" by blast
  show ovl: "overlap_pct r = Finite 100"
    unfolding r_def computeMatch_fields(2) using sub jd len by (rule matchKeywords_all_present(3))
  show mis: "missing_skills r = []"
    unfolding r_def computeMatch_fields(3) using sub jd len by (rule matchKeywords_all_present(1))
  have v0: "0 \<le> v" using v(2) by simp
  have ms: "match_score r =
      jsDiv (mathRound (jsMul (jsAdd (jsMul (jsMul (Finite v) (Finite 100)) semanticWeight)
                                     (jsMul (Finite 100) keywordWeight))
                              (Finite 100)))
            (Finite 100)"
    unfolding r_def
    by (subst computeMatch_fields(5)) (simp only: v(1) [unfolded r_def] ovl [unfolded r_def])
  have "(0::real) \<le> 100" "(100::real) \<le> 100" by simp_all
  from score_bounds [OF v0 v(3) this]
  obtain k where k: "match_score r = Finite (roundToDouble (of_int k / 100))" "0 \<le> k"
      "k \<le> 10000" "\<bar>of_int k - 100 * (v * 100 * (6 / 10) + 100 * (4 / 10))\<bar> \<le> 1 / 2 + 1 / 2 ^ 32"
    unfolding ms by blast
  have "100 * (v * 100 * (6 / 10) + 100 * (4 / 10)) = 10000 + 6000 * (v - 1)"
    by (simp add: algebra_simps)
  moreover have "6000 * (v - 1) \<ge> - (6000 / 2 ^ 50)" using v(2) by simp
  moreover have "(6000::real) / 2 ^ 50 + 1 / 2 ^ 32 < 1 / 2" by simp
  ultimately have "9999 < real_of_int k" using k(4) by linarith
  then have "9999 < k" by linarith
  with k(3) have "k = 10000" by simp
  then show score: "match_score r = Finite 100"
    unfolding k(1) by (simp add: roundToDouble_hundred)
  show "hd (feedback r) = msgExcellent"
    unfolding r_def
    by (subst computeMatch_fields(6))
      (simp add: score [unfolded r_def] feedbackFor_def generateFeedback_def Let_def)
next
  assume e: "tokenize uc s 2 = []"
  note z = computeMatch_no_tokens [OF e, folded r_def]
  show "semantic_similarity r = Finite 0" by (rule z(1))
  show "overlap_pct r = Finite 0" by (rule z(2))
  show "missing_skills r = []" by (rule z(3))
  show "match_score r = Finite 0" by (rule z(4))
  show "hd (feedback r) = msgLow" by (rule z(5))
qed


theorem identical_texts_witness:
  "length (tokenize asciiCasing (js ''Python and AWS'') 2) < 2 ^ 26
   \<and> tokenize asciiCasing (js ''Python and AWS'') 2 \<noteq> []
   \<and> overlap_pct (computeMatch asciiCasing (js ''Python and AWS'') (js ''Python and AWS''))
       = Finite 100
   \<and> match_score (computeMatch asciiCasing (js ''Python and AWS'') (js ''Python and AWS''))
       = Finite 100
   \<and> hd (feedback (computeMatch asciiCasing (js ''Python and AWS'') (js ''Python and AWS'')))
       = msgExcellent
   \<and> length (tokenize asciiCasing (js ''a 42'') 2) < 2 ^ 26
   \<and> tokenize asciiCasing (js ''a 42'') 2 = []
   \<and> match_score (computeMatch asciiCasing (js ''a 42'') (js ''a 42'')) = Finite 0"
proof -
  have b: "tokenize asciiCasing (js ''a 42'') 2 = []"
    by (simp add: runTokenizer)
  show ?thesis
    using identical_texts [of asciiCasing "js ''Python and AWS''"]
      identical_texts [of asciiCasing "js ''a 42''"]
    unfolding python_and_aws_tokens b by simp
qed

theorem identical_texts_counterexample:
  "js ''a'' \<noteq> []
   \<and> semantic_similarity (computeMatch asciiCasing (js ''a'') (js ''a'')) = Finite 0
   \<and> overlap_pct (computeMatch asciiCasing (js ''a'') (js ''a'')) = Finite 0
   \<and> match_score (computeMatch asciiCasing (js ''a'') (js ''a'')) = Finite 0
   \<and> hd (feedback (computeMatch asciiCasing (js ''a'') (js ''a''))) = msgLow
   \<and> msgLow \<noteq> msgExcellent
   \<and> js ''Python and AWS'' \<noteq> []
   \<and> semantic_similarity
        (computeMatch asciiCasing (js ''Python and AWS'') (js ''Python and AWS''))
       = Finite (1 + 1 / 2 ^ 52)
   \<and> (1 + 1 / 2 ^ 52 :: real) \<noteq> 1"
proof -
  have t: "tokenize asciiCasing (js ''a'') 2 = []"
    by (simp add: runTokenizer)
  have m: "msgLow \<noteq> msgExcellent"
    by (simp add: msgLow_def msgExcellent_def js_def)
  have n: "js ''a'' \<noteq> []" "js ''Python and AWS'' \<noteq> []" by (simp_all add: js_def)
  note z = computeMatch_no_tokens [OF t]
  show ?thesis
    using m n z(1,2,4,5) python_and_aws_similarity by simp
qed

section \<open>The match score\<close>

lemma eightSkills_tokens:
  "tokenize uc eightSkills 2 =
     [js ''aa'', js ''bb'', js ''cc'', js ''dd'', js ''ee'', js ''ff'', js ''gg'', js ''hh'']"
  by (simp add: eightSkills_def runTokenizer)

lemma threeSharedSkills_tokens:
  "tokenize uc threeSharedSkills 2 =
     [js ''aa'', js ''bb'', js ''cc'', js ''xx'', js ''xx'', js ''xx'', js ''xx'', js ''xx'',
      js ''xx'', js ''xx'', js ''xx'', js ''xx'', js ''xx'', js ''xx'', js ''yy'', js ''yy'']"
  by (simp add: threeSharedSkills_def runTokenizer)

lemma eightSkills_frequency:
  "buildFrequency (tokenize uc eightSkills 2) =
     [(js ''aa'', 1), (js ''bb'', 1), (js ''cc'', 1), (js ''dd'', 1), (js ''ee'', 1),
      (js ''ff'', 1), (js ''gg'', 1), (js ''hh'', 1)]"
  unfolding eightSkills_tokens
  by (simp add: buildFrequency_def countOf_def objGet_def js_def)

lemma threeSharedSkills_frequency:
  "buildFrequency (tokenize uc threeSharedSkills 2) =
     [(js ''aa'', 1), (js ''bb'', 1), (js ''cc'', 1), (js ''xx'', 11), (js ''yy'', 2)]"
  unfolding threeSharedSkills_tokens
  by (simp add: buildFrequency_def countOf_def objGet_def js_def)

lemma skills_sums:
  "cosineSums (buildFrequency (tokenize uc eightSkills 2))
              (buildFrequency (tokenize uc threeSharedSkills 2)) =
     (Finite 3, Finite 8, Finite 128)"
proof -
  have "cosineSums (buildFrequency (tokenize uc eightSkills 2))
              (buildFrequency (tokenize uc threeSharedSkills 2)) =
     (Finite (real 3), Finite (real 8), Finite (real 128))"
    unfolding eightSkills_frequency threeSharedSkills_frequency
    by (subst cosineSums_exact) (simp_all add: runCosine)
  then show ?thesis by simp
qed

lemma skills_quotient:
  "jsDiv (Finite 3) (jsMul (mathSqrt (Finite 8)) (mathSqrt (Finite 128))) =
     Finite (6755399441055743 / 2 ^ 56)"
proof -
  have "\<bar>sqrt 8 * 2 ^ 51 - of_int 6369051672525773\<bar> < 1 / 2"
    by (rule sqrt_eval) simp_all
  then have "toNumber (sqrt 8) = Finite (of_int 6369051672525773 / 2 ^ 51)"
    by (intro toNumber_eval) simp_all
  then have a: "mathSqrt (Finite 8) = Finite (6369051672525773 / 2 ^ 51)" by simp
  have "\<bar>sqrt 128 * 2 ^ 49 - of_int 6369051672525773\<bar> < 1 / 2"
    by (rule sqrt_eval) simp_all
  then have "toNumber (sqrt 128) = Finite (of_int 6369051672525773 / 2 ^ 49)"
    by (intro toNumber_eval) simp_all
  then have b: "mathSqrt (Finite 128) = Finite (6369051672525773 / 2 ^ 49)" by simp
  have "toNumber (6369051672525773 / 2 ^ 51 * (6369051672525773 / 2 ^ 49)) =
      Finite (of_int 4503599627370497 / 2 ^ 47)"
    by (rule toNumber_eval) simp_all
  then have p: "jsMul (Finite (6369051672525773 / 2 ^ 51)) (Finite (6369051672525773 / 2 ^ 49)) =
      Finite (4503599627370497 / 2 ^ 47)" by simp
  have "toNumber (3 / (4503599627370497 / 2 ^ 47)) = Finite (of_int 6755399441055743 / 2 ^ 56)"
    by (rule toNumber_eval) simp_all
  then have q: "jsDiv (Finite 3) (Finite (4503599627370497 / 2 ^ 47)) =
      Finite (6755399441055743 / 2 ^ 56)" by simp
  show ?thesis unfolding a b p q by (rule refl)
qed

lemma three_of_eight_percent:
  "jsMul (jsDiv (numberOfNat 3) (numberOfNat 8)) (Finite 100) = Finite (75 / 2)"
proof -
  have n: "numberOfNat 3 = Finite 3" "numberOfNat 8 = Finite 8"
    using numberOfNat_exact [of 3] numberOfNat_exact [of 8] by simp_all
  have "toNumber (3 / 8) = Finite (of_int 6755399441055744 / 2 ^ 54)"
    by (rule toNumber_eval) simp_all
  then have q: "jsDiv (Finite 3) (Finite 8) = Finite (3 / 8)" by simp
  have "toNumber (3 / 8 * 100) = Finite (of_int 5277655813324800 / 2 ^ 47)"
    by (rule toNumber_eval) simp_all
  then have p: "jsMul (Finite (3 / 8)) (Finite 100) = Finite (75 / 2)" by simp
  show ?thesis unfolding n q p by (rule refl)
qed

lemma weights_double:
  "semanticWeight = Finite (5404319552844595 / 2 ^ 53)"
  "keywordWeight = Finite (7205759403792794 / 2 ^ 54)"
proof -
  have "toNumber (6 / 10) = Finite (of_int 5404319552844595 / 2 ^ 53)"
    by (rule toNumber_eval) simp_all
  then show "semanticWeight = Finite (5404319552844595 / 2 ^ 53)"
    by (simp add: semanticWeight_def)
  have "toNumber (4 / 10) = Finite (of_int 7205759403792794 / 2 ^ 54)"
    by (rule toNumber_eval) simp_all
  then show "keywordWeight = Finite (7205759403792794 / 2 ^ 54)"
    by (simp add: keywordWeight_def)
qed

lemma skills_score:
  "jsDiv (mathRound (jsMul (jsAdd (jsMul (jsMul (Finite (6755399441055743 / 2 ^ 56)) (Finite 100))
                                      semanticWeight)
                               (jsMul (Finite (75 / 2)) keywordWeight))
                        (Finite 100)))
         (Finite 100) = Finite (5806828769540833 / 2 ^ 48)"
proof -
  have "toNumber (6755399441055743 / 2 ^ 56 * 100) = Finite (of_int 5277655813324799 / 2 ^ 49)"
    by (rule toNumber_eval) simp_all
  then have a1: "jsMul (Finite (6755399441055743 / 2 ^ 56)) (Finite 100) =
      Finite (5277655813324799 / 2 ^ 49)" by simp
  have "toNumber (5277655813324799 / 2 ^ 49 * (5404319552844595 / 2 ^ 53)) =
      Finite (of_int 6333186975989759 / 2 ^ 50)"
    by (rule toNumber_eval) simp_all
  then have a2: "jsMul (Finite (5277655813324799 / 2 ^ 49)) (Finite (5404319552844595 / 2 ^ 53)) =
      Finite (6333186975989759 / 2 ^ 50)" by simp
  have "toNumber (75 / 2 * (7205759403792794 / 2 ^ 54)) =
      Finite (of_int 8444249301319680 / 2 ^ 49)"
    by (rule toNumber_eval) simp_all
  then have b1: "jsMul (Finite (75 / 2)) (Finite (7205759403792794 / 2 ^ 54)) = Finite 15"
    by simp
  have "toNumber (6333186975989759 / 2 ^ 50 + 15) = Finite (of_int 5805421394657280 / 2 ^ 48)"
    by (rule toNumber_eval) simp_all
  then have x: "jsAdd (Finite (6333186975989759 / 2 ^ 50)) (Finite 15) = Finite (165 / 8)"
    by simp
  have "toNumber (165 / 8 * 100) = Finite (of_int 4535485464576000 / 2 ^ 41)"
    by (rule toNumber_eval) simp_all
  then have y: "jsMul (Finite (165 / 8)) (Finite 100) = Finite (4125 / 2)" by simp
  have "\<lfloor>(4125 / 2 + 1 / 2 :: real)\<rfloor> = 2063" by simp
  then have k: "mathRound (Finite (4125 / 2)) = Finite 2063" by simp
  have "toNumber (2063 / 100) = Finite (of_int 5806828769540833 / 2 ^ 48)"
    by (rule toNumber_eval) simp_all
  then have c: "jsDiv (Finite 2063) (Finite 100) = Finite (5806828769540833 / 2 ^ 48)" by simp
  show ?thesis unfolding weights_double a1 a2 b1 x y k c by (rule refl)
qed

lemma skills_keywords:
  "extractTopKeywords (tokenize uc eightSkills 2) 200 =
     [js ''aa'', js ''bb'', js ''cc'', js ''dd'', js ''ee'', js ''ff'', js ''gg'', js ''hh'']"
  "extractTopKeywords (tokenize uc threeSharedSkills 2) 400 =
     [js ''xx'', js ''yy'', js ''aa'', js ''bb'', js ''cc'']"
  unfolding extractTopKeywords_alt eightSkills_frequency threeSharedSkills_frequency
  by (simp_all add: objectEntries_def isArrayIndex_def isAllDigits_def isDigit_def js_def)

lemma skills_overlap:
  "overlapPct (matchKeywords (extractTopKeywords (tokenize uc eightSkills 2) 200)
                             (extractTopKeywords (tokenize uc threeSharedSkills 2) 400)) =
     Finite (75 / 2)"
proof -
  let ?jd = "[js ''aa'', js ''bb'', js ''cc'', js ''dd'', js ''ee'', js ''ff'', js ''gg'', js ''hh'']"
  let ?res = "[js ''xx'', js ''yy'', js ''aa'', js ''bb'', js ''cc'']"
  have n: "newSet ?jd = ?jd"
    by (rule newSet_distinct_id) (simp add: js_def)
  have m: "matched (matchKeywords ?jd ?res) = [js ''aa'', js ''bb'', js ''cc'']"
    unfolding matched_matchKeywords n by (simp add: js_def)
  have l: "length [js ''aa'', js ''bb'', js ''cc''] = 3" "length ?jd = 8"
    by simp_all
  have "overlapPct (matchKeywords ?jd ?res) =
      jsMul (jsDiv (numberOfNat 3) (numberOfNat 8)) (Finite 100)"
    unfolding overlapPct_matchKeywords m n l by simp
  then show ?thesis
    unfolding skills_keywords three_of_eight_percent .
qed

lemma python_and_aws_overlap:
  "overlap_pct (computeMatch asciiCasing (js ''Python and AWS'') (js ''Python and AWS''))
     = Finite 100"
proof -
  let ?t = "tokenize asciiCasing (js ''Python and AWS'') 2"
  have ne: "?t \<noteq> []" by (simp add: python_and_aws_tokens)
  have sub: "set (extractTopKeywords ?t 200) \<subseteq> set (extractTopKeywords ?t 400)"
    by (rule extractTopKeywords_mono) simp
  have jd: "extractTopKeywords ?t 200 \<noteq> []"
    using ne by (rule extractTopKeywords_nonempty) simp
  have len: "length (extractTopKeywords ?t 200) < 2 ^ 53"
    by (rule extractTopKeywords_short) simp
  show ?thesis
    unfolding computeMatch_fields(2) using sub jd len by (rule matchKeywords_all_present(3))
qed

lemma roundTo2Decimals_eval:
  fixes k :: int
  assumes "0 \<le> x" and "of_int k \<le> x * 100 + 1 / 2" and "x * 100 + 1 / 2 < of_int k + 1"
  shows "roundTo2Decimals x = of_int k / 100"
proof -
  have "0 \<le> x * 100" using assms(1) by simp
  then have "roundHalfAwayFromZero (x * 100) = of_int \<lfloor>x * 100 + 1 / 2\<rfloor>"
    by (rule roundHalfAwayFromZero_nonneg)
  moreover have "\<lfloor>x * 100 + 1 / 2\<rfloor> = k"
    using assms(2,3) by (rule floor_unique)
  ultimately show ?thesis by (simp add: roundTo2Decimals_def)
qed

text \<open>
  C1, as amended: for every pair of texts of fewer than \<open>2^26\<close> tokens each that reaches the
  scoring pipeline, the returned \<open>semantic_similarity\<close> and \<open>overlap_pct\<close> are finite
  doubles \<open>s\<close> in \<open>[0, 1 + 2^-50]\<close> and \<open>p\<close> in \<open>[0, 100]\<close>, and the returned \<open>match_score\<close>
  is the double nearest to \<open>k / 100\<close> for an integer \<open>k\<close> between 0 and 10000 that differs
  from \<open>100 * ((s * 100) * 0.6 + p * 0.4)\<close> by at most \<open>1/2 + 2^-32\<close>. So the score lies in
  [0, 100], and it is the double nearest to the formula rounded to two decimal places, a tie
  going away from zero, whenever a hundred times the formula is further than \<open>2^-32\<close> from
  a tie. At a tie the claim as stated fails: for the texts \<open>eightSkills\<close> and
  \<open>threeSharedSkills\<close> the similarity is the double just below \<open>3/32\<close> and the overlap
  is 37.5, so the formula is just below 20.625 and rounds to 20.62, while the code, which
  rounds after each operation, reaches 2062.5 and returns 20.63.
\<close>

theorem match_score_formula:
  fixes uc :: casing and jd res :: jsstring
  assumes "length (tokenize uc jd 2) < 2 ^ 26" and "length (tokenize uc res 2) < 2 ^ 26"
  defines "r \<equiv> computeMatch uc jd res"
  defines "s \<equiv> realOf (semantic_similarity r)"
  defines "p \<equiv> realOf (overlap_pct r)"
  defines "F \<equiv> s * 100 * (6 / 10) + p * (4 / 10)"
  shows "semantic_similarity r = Finite s \<and> 0 \<le> s \<and> s \<le> 1 + 1 / 2 ^ 50
    \<and> overlap_pct r = Finite p \<and> 0 \<le> p \<and> p \<le> 100
    \<and> (\<exists>k. match_score r = Finite (roundToDouble (of_int k / 100)) \<and> 0 \<le> k \<and> k \<le> 10000
           \<and> \<bar>of_int k - 100 * F\<bar> \<le> 1 / 2 + 1 / 2 ^ 32)
    \<and> (\<exists>c. match_score r = Finite c \<and> 0 \<le> c \<and> c \<le> 100)
    \<and> (1 / 2 ^ 32 < \<bar>100 * F - of_int \<lfloor>100 * F\<rfloor> - 1 / 2\<bar> \<longrightarrow>
          match_score r = Finite (roundToDouble (roundTo2Decimals F)))"
proof -
  obtain v where v: "semantic_similarity r = Finite v" "0 \<le> v" "v \<le> 1 + 1 / 2 ^ 50"
    unfolding r_def computeMatch_fields(1) using cosineSimilarity_bounds [OF assms(1,2)] by blast
  have "(200::nat) \<le> 400" by simp
  note overlapPct_range [OF extractTopKeywords_short [OF this]]
  then obtain q where q: "overlap_pct r = Finite q" "0 \<le> q" "q \<le> 100"
    unfolding r_def computeMatch_fields(2) by blast
  have sv: "s = v" by (simp add: s_def v(1) realOf_def)
  have pq: "p = q" by (simp add: p_def q(1) realOf_def)
  have ms: "match_score r =
      jsDiv (mathRound (jsMul (jsAdd (jsMul (jsMul (Finite v) (Finite 100)) semanticWeight)
                                     (jsMul (Finite q) keywordWeight))
                              (Finite 100)))
            (Finite 100)"
    unfolding r_def
    by (subst computeMatch_fields(5)) (simp only: v(1) [unfolded r_def] q(1) [unfolded r_def])
  from score_bounds [OF v(2,3) q(2,3)]
  obtain k where k: "match_score r = Finite (roundToDouble (of_int k / 100))" "0 \<le> k"
      "k \<le> 10000" "\<bar>of_int k - 100 * F\<bar> \<le> 1 / 2 + 1 / 2 ^ 32"
    unfolding ms F_def sv pq by blast
  note c = hundredth_range [OF k(2,3)]
  have F0: "0 \<le> 100 * F" unfolding F_def sv pq using v(2) q(2) by simp
  have tie: "match_score r = Finite (roundToDouble (roundTo2Decimals F))"
    if "1 / 2 ^ 32 < \<bar>100 * F - of_int \<lfloor>100 * F\<rfloor> - 1 / 2\<bar>"
  proof -
    have "k = \<lfloor>100 * F + 1 / 2\<rfloor>" using k(4) that by (rule nearest_integer)
    then have "of_int k = roundHalfAwayFromZero (F * 100)"
      using roundHalfAwayFromZero_nonneg [OF F0] by (simp add: mult.commute)
    then show ?thesis unfolding k(1) roundTo2Decimals_def by simp
  qed
  from v q k c tie show ?thesis unfolding sv pq by blast
qed

theorem match_score_formula_witness:
  "length (tokenize asciiCasing (js ''Python and AWS'') 2) < 2 ^ 26
   \<and> realOf (semantic_similarity
         (computeMatch asciiCasing (js ''Python and AWS'') (js ''Python and AWS'')))
       = 1 + 1 / 2 ^ 52
   \<and> realOf (overlap_pct
         (computeMatch asciiCasing (js ''Python and AWS'') (js ''Python and AWS''))) = 100
   \<and> 1 / 2 ^ 32 < \<bar>100 * ((1 + 1 / 2 ^ 52) * 100 * (6 / 10) + 100 * (4 / 10))
                     - of_int \<lfloor>100 * ((1 + 1 / 2 ^ 52) * 100 * (6 / 10) + 100 * (4 / 10)) :: real\<rfloor>
                     - 1 / 2 :: real\<bar>
   \<and> match_score (computeMatch asciiCasing (js ''Python and AWS'') (js ''Python and AWS''))
       = Finite (roundToDouble
                  (roundTo2Decimals ((1 + 1 / 2 ^ 52) * 100 * (6 / 10) + 100 * (4 / 10))))
   \<and> roundTo2Decimals ((1 + 1 / 2 ^ 52) * 100 * (6 / 10) + 100 * (4 / 10)) = 100"
proof -
  let ?r = "computeMatch asciiCasing (js ''Python and AWS'') (js ''Python and AWS'')"
  let ?F = "(1 + 1 / 2 ^ 52) * 100 * (6 / 10) + 100 * (4 / 10) :: real"
  have l: "length (tokenize asciiCasing (js ''Python and AWS'') 2) < 2 ^ 26"
    by (simp add: python_and_aws_tokens)
  have s: "realOf (semantic_similarity ?r) = 1 + 1 / 2 ^ 52"
    by (simp add: python_and_aws_similarity realOf_def)
  have p: "realOf (overlap_pct ?r) = 100"
    by (simp add: python_and_aws_overlap realOf_def)
  have fl: "\<lfloor>100 * ?F\<rfloor> = 10000"
    by (rule floor_unique) simp_all
  have tie: "1 / 2 ^ 32 < \<bar>100 * ?F - of_int \<lfloor>100 * ?F\<rfloor> - 1 / 2\<bar>"
    unfolding fl by simp
  have two: "roundTo2Decimals ?F = 100"
    using roundTo2Decimals_eval [of ?F 10000] by simp
  from match_score_formula [OF l l, unfolded s p] tie
  have "match_score ?r = Finite (roundToDouble (roundTo2Decimals ?F))" by blast
  with l s p tie two show ?thesis by (intro conjI)
qed

theorem match_score_formula_counterexample:
  "semantic_similarity (computeMatch asciiCasing eightSkills threeSharedSkills)
     = Finite (6755399441055743 / 2 ^ 56)
   \<and> overlap_pct (computeMatch asciiCasing eightSkills threeSharedSkills) = Finite (75 / 2)
   \<and> match_score (computeMatch asciiCasing eightSkills threeSharedSkills)
     = Finite (5806828769540833 / 2 ^ 48)
   \<and> roundTo2Decimals (6755399441055743 / 2 ^ 56 * 100 * (6 / 10) + 75 / 2 * (4 / 10))
     = 2062 / 100
   \<and> (2062 / 100 + 9 / 1000 :: real) < 5806828769540833 / 2 ^ 48"
proof -
  let ?r = "computeMatch asciiCasing eightSkills threeSharedSkills"
  have sem: "semantic_similarity ?r = Finite (6755399441055743 / 2 ^ 56)"
    unfolding computeMatch_fields(1) cosineSimilarity_def skills_sums prod.case skills_quotient
    by simp
  have ovl: "overlap_pct ?r = Finite (75 / 2)"
    unfolding computeMatch_fields(2) by (rule skills_overlap)
  have score: "match_score ?r = Finite (5806828769540833 / 2 ^ 48)"
    by (subst computeMatch_fields(5)) (simp only: sem ovl skills_score)
  have two: "roundTo2Decimals (6755399441055743 / 2 ^ 56 * 100 * (6 / 10) + 75 / 2 * (4 / 10))
      = 2062 / 100"
    using roundTo2Decimals_eval
      [of "6755399441055743 / 2 ^ 56 * 100 * (6 / 10) + 75 / 2 * (4 / 10)" 2062]
    by simp
  have gap: "(2062 / 100 + 9 / 1000 :: real) < 5806828769540833 / 2 ^ 48" by simp
  from sem ovl score two gap show ?thesis by (intro conjI)
qed

end
